theory Spec2Isabelle
  imports Main "HOL-Library.Word" "HOL-Library.Multiset"
begin

unbundle bit_operations_syntax

section \<open>The Mimir build engine: model\<close>

subsection \<open>File system\<close>

text \<open>
  The engine touches the file system in three ways: it opens files for reading (input files
  of a target, declared outputs, the cache file), and it opens the cache file for writing.
  \<open>contents\<close> maps every path that can be opened for reading to its bytes;
  \<open>creatable\<close> says whether opening a path for writing succeeds.
\<close>

record filesys =
  contents :: "string \<rightharpoonup> string"
  creatable :: "string \<Rightarrow> bool"

subsection \<open>Signature service (signature.cpp)\<close>

text \<open>
  \<open>unsigned int\<close> is a 32-bit word: \<open>+=\<close> wraps, \<open>(h0 << 7) | (h0 >> 25)\<close> is a
  rotation by seven bits. A byte of the data is read as \<open>unsigned char\<close>, i.e. its
  value between 0 and 255.
\<close>

type_synonym u32 = "32 word"

definition rotl7 :: "u32 \<Rightarrow> u32" where
  "rotl7 h = (push_bit 7 h) OR (drop_bit 25 h)"

text \<open>
  \<open>std::hex\<close>, \<open>std::setfill('0')\<close> and \<open>std::setw(8)\<close> print an unsigned 32-bit value
  as its eight nibbles, most significant first, in lower case.
\<close>

definition hexdigit :: "nat \<Rightarrow> char" where
  "hexdigit n = ''0123456789abcdef'' ! n"

definition hex8 :: "u32 \<Rightarrow> string" where
  "hex8 w = map (\<lambda>i. hexdigit (unat (drop_bit (4 * i) w AND 15))) [7, 6, 5, 4, 3, 2, 1, 0]"

text \<open>One round of the loop of \<open>Signature::sha256\<close>, on the triple \<open>(h0, h1, h2)\<close>.\<close>

fun sha256_step :: "u32 \<times> u32 \<times> u32 \<Rightarrow> char \<Rightarrow> u32 \<times> u32 \<times> u32" where
  "sha256_step (h0, h1, h2) c =
     (let h0' = rotl7 (h0 XOR of_char c) in (h0', h1 XOR h0', h2 + of_char c))"

definition sha256 :: "string \<Rightarrow> string" where
  "sha256 data =
     (case foldl sha256_step (0x6a09e667, 0xbb67ae85, 0x3c6ef372) data of
        (h0, h1, h2) \<Rightarrow>
          hex8 h0 @ hex8 h1 @ hex8 h2 @ hex8 0xa54ff53a @ hex8 0x510e527f @
          hex8 0x9b05688c @ hex8 0x1f83d9ab @ hex8 0x5be0cd19)"

text \<open>A file that cannot be opened has the empty signature.\<close>

definition computeFileSignature :: "filesys \<Rightarrow> string \<Rightarrow> string" where
  "computeFileSignature fs filepath =
     (case contents fs filepath of None \<Rightarrow> [] | Some bytes \<Rightarrow> sha256 bytes)"

definition computeTargetSignature :: "filesys \<Rightarrow> string \<Rightarrow> string list \<Rightarrow> string" where
  "computeTargetSignature fs command inputs =
     sha256 (foldl (\<lambda>combined input. combined @ ''|'' @ computeFileSignature fs input) command inputs)"

subsection \<open>Cache (cache.cpp)\<close>

text \<open>
  The cache holds its directory, the path of its file and the map \<open>signatures_\<close> from
  target names to signatures. The locks of the source protect single calls and do not
  change what a call computes.
\<close>

record cache =
  cacheDir :: string
  cacheFile :: string
  signatures :: "string \<rightharpoonup> string"

text \<open>The line separator of the cache file, the character \<open>'\n'\<close>.\<close>

definition newline :: char where
  "newline = CHR 0x0A"

definition Cache_ctor :: "string \<Rightarrow> cache" where
  "Cache_ctor dir = \<lparr>cacheDir = dir, cacheFile = dir @ ''/cache.txt'', signatures = Map.empty\<rparr>"

text \<open>
  The loop \<open>while (std::getline(file, line))\<close>: \<open>getlines line rest\<close> is the list of lines
  the loop sees when \<open>line\<close> has been read of the current line and \<open>rest\<close> is still to
  be read. A line ends at a newline, which is dropped; the end of the file ends a line only
  when at least one character of it was read, otherwise the loop stops.
\<close>

fun getlines :: "string \<Rightarrow> string \<Rightarrow> string list" where
  "getlines line [] = (if line = [] then [] else [line])"
| "getlines line (c # rest) =
     (if c = newline then line # getlines [] rest else getlines (line @ [c]) rest)"

text \<open>\<open>std::string::find(ch)\<close>: the first position of the character, or \<open>npos\<close>.\<close>

fun find_char :: "char \<Rightarrow> string \<Rightarrow> nat option" where
  "find_char c [] = None"
| "find_char c (x # xs) = (if x = c then Some 0 else map_option Suc (find_char c xs))"

text \<open>The body of the loop of \<open>Cache::load\<close>, on the map built so far.\<close>

definition load_line :: "(string \<rightharpoonup> string) \<Rightarrow> string \<Rightarrow> (string \<rightharpoonup> string)" where
  "load_line sigs line =
     (case find_char CHR ''='' line of
        None \<Rightarrow> sigs
      | Some pos \<Rightarrow> sigs(take pos line \<mapsto> drop (pos + 1) line))"

definition load :: "filesys \<Rightarrow> cache \<Rightarrow> bool \<times> cache" where
  "load fs c =
     (case contents fs (cacheFile c) of
        None \<Rightarrow> (False, c)
      | Some text \<Rightarrow> (True, c\<lparr>signatures := foldl load_line Map.empty (getlines [] text)\<rparr>))"

text \<open>
  \<open>Cache::save\<close> writes the entries in the iteration order of the hash map, which the
  language leaves open: \<open>entries\<close> is that sequence. The stream is opened for writing
  and the file is truncated; when it cannot be opened nothing is written.
\<close>

definition save :: "(string \<times> string) list \<Rightarrow> filesys \<Rightarrow> cache \<Rightarrow> bool \<times> filesys" where
  "save entries fs c =
     (if \<not> creatable fs (cacheFile c) then (False, fs)
      else (True, fs\<lparr>contents := (contents fs)(cacheFile c \<mapsto>
              concat (map (\<lambda>(targetName, signature). targetName @ ''='' @ signature @ [newline]) entries))\<rparr>))"

definition setSignature :: "string \<Rightarrow> string \<Rightarrow> cache \<Rightarrow> cache" where
  "setSignature targetName signature c = c\<lparr>signatures := (signatures c)(targetName \<mapsto> signature)\<rparr>"

definition needsRebuild :: "cache \<Rightarrow> string \<Rightarrow> string \<Rightarrow> bool" where
  "needsRebuild c targetName currentSignature =
     (case signatures c targetName of None \<Rightarrow> True | Some stored \<Rightarrow> stored \<noteq> currentSignature)"

text \<open>
  The cache file format in the words of the specification: a line is split at its first
  \<open>=\<close>; a line with no \<open>=\<close> has no entry.
\<close>

definition split_first_eq :: "string \<Rightarrow> (string \<times> string) option" where
  "split_first_eq line =
     (if CHR ''='' \<in> set line
      then Some (takeWhile (\<lambda>ch. ch \<noteq> CHR ''='') line, tl (dropWhile (\<lambda>ch. ch \<noteq> CHR ''='') line))
      else None)"

subsection \<open>Targets and the graph (target.h, dag.cpp)\<close>

text \<open>A target, with the fields of the class \<open>Target\<close> under the names of their getters.\<close>

record target =
  getName :: string
  getInputs :: "string list"
  getOutputs :: "string list"
  getCommand :: string
  getDependencies :: "string list"
  getSignature :: string

text \<open>
  \<open>targets_\<close> is a hash map from names to targets. A graph is the list of its entries
  in the order in which the map is iterated, which the language leaves open; the keys of
  a map are distinct, and the properties below assume \<open>distinct (map fst dag)\<close>.
  Lookup by \<open>targets_.find\<close> is \<open>map_of\<close>.
\<close>

type_synonym dag = "(string \<times> target) list"

definition getTarget :: "dag \<Rightarrow> string \<Rightarrow> target option" where
  "getTarget dag name = map_of dag name"

text \<open>
  \<open>inDegree\<close> is a hash map from names to \<open>int\<close>; \<open>inDegree[name]\<close> reads 0 for a
  key that is not there yet.
\<close>

definition counter :: "(string \<rightharpoonup> int) \<Rightarrow> string \<Rightarrow> int" where
  "counter m k = (case m k of None \<Rightarrow> 0 | Some v \<Rightarrow> v)"

text \<open>The first two loops of \<open>DAG::topologicalSort\<close>.\<close>

definition initInDegree :: "dag \<Rightarrow> (string \<rightharpoonup> int)" where
  "initInDegree dag =
     fold (\<lambda>(name, target) inDegree.
             if inDegree name = None then inDegree(name \<mapsto> 0) else inDegree) dag Map.empty"

definition countInDegree :: "dag \<Rightarrow> (string \<rightharpoonup> int) \<Rightarrow> (string \<rightharpoonup> int)" where
  "countInDegree dag inDegree0 =
     fold (\<lambda>(name, target) inDegree.
             fold (\<lambda>dep inDegree. inDegree(name \<mapsto> counter inDegree name + 1))
                  (getDependencies target) inDegree) dag inDegree0"

text \<open>
  The body of the inner loop of the queue processing, for one entry of \<open>targets_\<close>:
  when \<open>current\<close> is among the dependencies of the entry (\<open>std::find\<close>), its
  counter is decremented once and the name is queued when the counter reaches zero.
\<close>

definition reduceDependent ::
  "string \<Rightarrow> string \<times> target \<Rightarrow> (string \<rightharpoonup> int) \<times> string list \<Rightarrow> (string \<rightharpoonup> int) \<times> string list" where
  "reduceDependent current entry st =
     (case entry of (name, target) \<Rightarrow>
      case st of (inDegree, queue) \<Rightarrow>
        if current \<in> set (getDependencies target)
        then (let inDegree' = inDegree(name \<mapsto> counter inDegree name - 1)
              in if counter inDegree' name = 0 then (inDegree', queue @ [name]) else (inDegree', queue))
        else (inDegree, queue))"

text \<open>
  The queue loop terminates: a name is queued only when its counter steps from 1 to 0, so
  the number of names with a positive counter, plus the length of the queue still to be
  processed, decreases with every round.
\<close>

definition posCount :: "dag \<Rightarrow> (string \<rightharpoonup> int) \<Rightarrow> nat" where
  "posCount dag inDegree = card {n \<in> fst ` set dag. 0 < counter inDegree n}"

lemma reduceDependent_measure:
  assumes "e \<in> set dag" and "reduceDependent current e (deg, q) = (deg', q')"
  shows "length q' + posCount dag deg' = length q + posCount dag deg"
proof -
  obtain name t where e: "e = (name, t)" by (cases e)
  have nm: "name \<in> fst ` set dag" using assms(1) e by force
  show ?thesis
  proof (cases "current \<in> set (getDependencies t)")
    case False
    then show ?thesis using assms(2) e by (simp add: reduceDependent_def)
  next
    case True
    let ?deg = "deg(name \<mapsto> counter deg name - 1)"
    have d': "deg' = ?deg" using assms(2) e True by (simp add: reduceDependent_def Let_def split: if_splits)
    have c: "counter ?deg name = counter deg name - 1" by (simp add: counter_def)
    have o: "counter ?deg n = counter deg n" if "n \<noteq> name" for n using that by (simp add: counter_def)
    show ?thesis
    proof (cases "counter deg name = 1")
      case True
      then have q': "q' = q @ [name]" using assms(2) e \<open>current \<in> set (getDependencies t)\<close> c
        by (simp add: reduceDependent_def Let_def)
      have "n \<in> {n \<in> fst ` set dag. 0 < counter deg n} \<longleftrightarrow> n \<in> insert name {n \<in> fst ` set dag. 0 < counter ?deg n}" for n
        using True c o[of n] nm by (cases "n = name") auto
      then have eq: "{n \<in> fst ` set dag. 0 < counter deg n} = insert name {n \<in> fst ` set dag. 0 < counter ?deg n}"
        by blast
      have notin: "name \<notin> {n \<in> fst ` set dag. 0 < counter ?deg n}" using True c by simp
      have fin: "finite {n \<in> fst ` set dag. 0 < counter ?deg n}" by simp
      have "card {n \<in> fst ` set dag. 0 < counter deg n} = card (insert name {n \<in> fst ` set dag. 0 < counter ?deg n})"
        by (simp only: eq)
      also have "\<dots> = Suc (card {n \<in> fst ` set dag. 0 < counter ?deg n})"
        by (rule card_insert_disjoint[OF fin notin])
      finally have "posCount dag deg = Suc (posCount dag ?deg)"
        by (simp only: posCount_def)
      then show ?thesis using q' d' by simp
    next
      case False
      then have q': "q' = q" using assms(2) e \<open>current \<in> set (getDependencies t)\<close> c
        by (simp add: reduceDependent_def Let_def)
      have "n \<in> {n \<in> fst ` set dag. 0 < counter deg n} \<longleftrightarrow> n \<in> {n \<in> fst ` set dag. 0 < counter ?deg n}" for n
        using False c o[of n] by (cases "n = name") auto
      then have "{n \<in> fst ` set dag. 0 < counter deg n} = {n \<in> fst ` set dag. 0 < counter ?deg n}"
        by blast
      then show ?thesis using q' d' by (simp add: posCount_def)
    qed
  qed
qed

lemma fold_reduceDependent_measure:
  assumes "set es \<subseteq> set dag" and "fold (reduceDependent current) es (deg, q) = (deg', q')"
  shows "length q' + posCount dag deg' = length q + posCount dag deg"
  using assms
proof (induction es arbitrary: deg q)
  case Nil
  then show ?case by simp
next
  case (Cons e es)
  obtain d1 q1 where s: "reduceDependent current e (deg, q) = (d1, q1)" by (cases "reduceDependent current e (deg, q)")
  have "length q1 + posCount dag d1 = length q + posCount dag deg"
    using reduceDependent_measure[OF _ s] Cons.prems(1) by simp
  moreover have "length q' + posCount dag deg' = length q1 + posCount dag d1"
    using Cons.IH[of d1 q1] Cons.prems s by simp
  ultimately show ?case by simp
qed

function processQueue :: "dag \<Rightarrow> (string \<rightharpoonup> int) \<Rightarrow> string list \<Rightarrow> nat \<Rightarrow> string list \<Rightarrow> string list" where
  "processQueue dag inDegree queue idx result =
     (if idx < length queue
      then (let current = queue ! idx in
            case fold (reduceDependent current) dag (inDegree, queue) of
              (inDegree', queue') \<Rightarrow> processQueue dag inDegree' queue' (Suc idx) (result @ [current]))
      else result)"
  by pat_completeness auto
termination
proof (relation "measure (\<lambda>(dag, inDegree, queue, idx, result). length queue + posCount dag inDegree - idx)", goal_cases)
  case 1
  then show ?case by simp
next
  case (2 dag inDegree queue idx result current inDegree' queue')
  then have "fold (reduceDependent (queue ! idx)) dag (inDegree, queue) = (inDegree', queue')" by simp
  from fold_reduceDependent_measure[OF subset_refl this] 2(1) show ?case by simp
qed

text \<open>
  The queue is seeded by iterating the map \<open>inDegree\<close>, whose iteration order is again
  open: \<open>inDegreeOrder\<close> is the sequence of its keys in that order.
\<close>

definition topologicalSort :: "string list \<Rightarrow> dag \<Rightarrow> string list" where
  "topologicalSort inDegreeOrder dag =
     (let inDegree = countInDegree dag (initInDegree dag);
          queue = filter (\<lambda>name. counter inDegree name = 0) inDegreeOrder
      in processQueue dag inDegree queue 0 [])"

declare processQueue.simps [simp del]

text \<open>\<open>Target(name)\<close> followed by \<open>setDependencies(deps)\<close>.\<close>

definition tgt :: "string \<Rightarrow> string list \<Rightarrow> target" where
  "tgt n ds = \<lparr>getName = n, getInputs = [], getOutputs = [], getCommand = [], getDependencies = ds, getSignature = []\<rparr>"

text \<open>\<open>DAG::getDependencies(name)\<close>: the declared dependencies, none for an unknown name.\<close>

definition dependenciesOf :: "dag \<Rightarrow> string \<Rightarrow> string list" where
  "dependenciesOf dag name = (case map_of dag name of None \<Rightarrow> [] | Some t \<Rightarrow> getDependencies t)"

text \<open>The induced graph: an edge from every target to each of its declared dependencies.\<close>

definition edges :: "dag \<Rightarrow> (string \<times> string) set" where
  "edges dag = {(t, d). d \<in> set (dependenciesOf dag t)}"

text \<open>\<open>a\<close> occurs in \<open>xs\<close> before the first occurrence of \<open>b\<close>.\<close>

definition appears_before :: "string list \<Rightarrow> string \<Rightarrow> string \<Rightarrow> bool" where
  "appears_before xs a b = (b \<in> set xs \<and> a \<in> set (takeWhile (\<lambda>x. x \<noteq> b) xs))"

text \<open>
  The invariant of the queue loop: the queue has no repetition and holds names of the
  graph only; the counter of a name is the number of its dependency entries minus the
  number of its dependencies processed so far; a name is queued exactly when its counter
  is zero; and the dependencies of a queued name all stand before it.
\<close>

definition kahn_inv :: "dag \<Rightarrow> (string \<rightharpoonup> int) \<Rightarrow> string list \<Rightarrow> nat \<Rightarrow> bool" where
  "kahn_inv dag deg queue idx =
     (idx \<le> length queue \<and> distinct queue \<and> set queue \<subseteq> fst ` set dag \<and>
      (\<forall>n \<in> fst ` set dag. counter deg n =
          int (length (dependenciesOf dag n)) - int (card (set (dependenciesOf dag n) \<inter> set (take idx queue)))) \<and>
      (\<forall>n \<in> fst ` set dag. n \<in> set queue \<longleftrightarrow> counter deg n = 0) \<and>
      (\<forall>j < length queue. set (dependenciesOf dag (queue ! j)) \<subseteq> set (take j queue)))"

subsection \<open>Cycle detection (dag.cpp)\<close>

text \<open>
  The state the depth-first traversal threads through its calls: the marker of every node
  (\<open>visited[n]\<close> reads 0 for a node not seen yet; 1 is "on the current path", 2 is
  "finished"), the recursion stack, and the output parameter \<open>cycleNodes\<close>.
\<close>

record dfs_state =
  visited :: "string \<Rightarrow> int"
  recStack :: "string list"
  cycleOut :: "string list"

record cycleDetectionResult =
  hasCycle :: bool
  cycleNodes :: "string list"

text \<open>
  \<open>DAG::hasCycleUtil\<close> and the loop over the dependencies in its body. The recursion is
  bounded by a fuel argument, the depth still allowed; \<open>None\<close> means the fuel ran out.
  \<open>detectCyclesWithPath\<close> below starts with more fuel than there are nodes, and the
  correctness theorem shows that it always returns a result.
  \<open>std::find\<close> on the stack followed by \<open>assign\<close> and \<open>push_back\<close> is
  \<open>dropWhile\<close> followed by appending the node; \<open>pop_back\<close> is \<open>butlast\<close>.
\<close>

fun hasCycleUtil :: "nat \<Rightarrow> dag \<Rightarrow> string \<Rightarrow> dfs_state \<Rightarrow> (bool \<times> dfs_state) option"
  and visitDependencies :: "nat \<Rightarrow> dag \<Rightarrow> string list \<Rightarrow> dfs_state \<Rightarrow> (bool \<times> dfs_state) option"
  where
  "hasCycleUtil 0 dag node st = None"
| "hasCycleUtil (Suc fuel) dag node st =
     (let st1 = st\<lparr>visited := (visited st)(node := 1), recStack := recStack st @ [node]\<rparr> in
      case (case map_of dag node of
              None \<Rightarrow> Some (False, st1)
            | Some t \<Rightarrow> visitDependencies fuel dag (getDependencies t) st1) of
        None \<Rightarrow> None
      | Some (True, st2) \<Rightarrow> Some (True, st2)
      | Some (False, st2) \<Rightarrow>
          Some (False, st2\<lparr>visited := (visited st2)(node := 2), recStack := butlast (recStack st2)\<rparr>))"
| "visitDependencies fuel dag [] st = Some (False, st)"
| "visitDependencies fuel dag (dep # deps) st =
     (if visited st dep = 0 then
        (case hasCycleUtil fuel dag dep st of
           None \<Rightarrow> None
         | Some (True, st') \<Rightarrow> Some (True, st')
         | Some (False, st') \<Rightarrow> visitDependencies fuel dag deps st')
      else if visited st dep = 1 then
        Some (True, st\<lparr>cycleOut := dropWhile (\<lambda>x. x \<noteq> dep) (recStack st) @ [dep]\<rparr>)
      else visitDependencies fuel dag deps st)"

text \<open>The loop of \<open>DAG::detectCyclesWithPath\<close> over the entries of \<open>targets_\<close>.\<close>

fun detectLoop :: "nat \<Rightarrow> dag \<Rightarrow> string list \<Rightarrow> dfs_state \<Rightarrow> cycleDetectionResult option" where
  "detectLoop fuel dag [] st = Some \<lparr>hasCycle = False, cycleNodes = []\<rparr>"
| "detectLoop fuel dag (name # names) st =
     (if visited st name = 0 then
        (case hasCycleUtil fuel dag name st of
           None \<Rightarrow> None
         | Some (True, st') \<Rightarrow> Some \<lparr>hasCycle = True, cycleNodes = cycleOut st'\<rparr>
         | Some (False, st') \<Rightarrow> detectLoop fuel dag names st')
      else detectLoop fuel dag names st)"

text \<open>Every name the traversal can meet: the registered names and all declared dependencies.\<close>

definition dfs_nodes :: "dag \<Rightarrow> string list" where
  "dfs_nodes dag = map fst dag @ concat (map (\<lambda>(name, t). getDependencies t) dag)"

definition detectCyclesWithPath :: "dag \<Rightarrow> cycleDetectionResult option" where
  "detectCyclesWithPath dag =
     detectLoop (Suc (length (dfs_nodes dag))) dag (map fst dag)
       \<lparr>visited = (\<lambda>_. 0), recStack = [], cycleOut = []\<rparr>"

text \<open>
  A cycle path: at least two entries, the first equal to the last, and every entry a
  declared dependency of the one before it.
\<close>

definition is_cycle_path :: "dag \<Rightarrow> string list \<Rightarrow> bool" where
  "is_cycle_path dag p =
     (2 \<le> length p \<and> hd p = last p \<and> successively (\<lambda>a b. b \<in> set (dependenciesOf dag a)) p)"

text \<open>
  The invariant of the traversal: the stack is a path of the graph; the nodes marked 1 are
  the nodes of the stack; markers are 0, 1 or 2; the dependencies of a finished node are
  finished; and no finished node lies on a cycle.
\<close>

definition dfs_inv :: "dag \<Rightarrow> dfs_state \<Rightarrow> bool" where
  "dfs_inv dag st =
     (successively (\<lambda>a b. b \<in> set (dependenciesOf dag a)) (recStack st) \<and>
      (\<forall>n. visited st n = 1 \<longleftrightarrow> n \<in> set (recStack st)) \<and>
      (\<forall>n. visited st n = 0 \<or> visited st n = 1 \<or> visited st n = 2) \<and>
      (\<forall>n m. visited st n = 2 \<longrightarrow> m \<in> set (dependenciesOf dag n) \<longrightarrow> visited st m = 2) \<and>
      (\<forall>n. visited st n = 2 \<longrightarrow> (n, n) \<notin> (edges dag)\<^sup>+))"

text \<open>The nodes not yet visited, and what a call of the traversal returns.\<close>

definition white :: "dag \<Rightarrow> dfs_state \<Rightarrow> string set" where
  "white dag st = {n \<in> set (dfs_nodes dag). visited st n = 0}"

definition dfs_ret :: "dag \<Rightarrow> dfs_state \<Rightarrow> (bool \<times> dfs_state) option \<Rightarrow> bool" where
  "dfs_ret dag st r =
     (\<exists>b st'. r = Some (b, st') \<and>
        (if b then is_cycle_path dag (cycleOut st')
         else dfs_inv dag st' \<and> recStack st' = recStack st \<and> cycleOut st' = cycleOut st \<and>
              (\<forall>n. visited st n \<noteq> 0 \<longrightarrow> visited st' n = visited st n)))"

subsection \<open>Executor (executor.h, executor.cpp)\<close>

text \<open>
  What the executor works on besides the graph and the cache: the file system and the
  atomic flag \<open>cancelled_\<close>. The command runner and the progress callback are code of the
  caller; they get the world and give it back changed as they like (a command writes its
  outputs, a callback may call \<open>cancel()\<close>).
\<close>

record world =
  files :: filesys
  cancelled :: bool

record executorConfig =
  numThreads :: int
  dryRun :: bool
  verbose :: bool
  stopOnError :: bool
  colorOutput :: bool

definition ExecutorConfig_ctor :: executorConfig where
  "ExecutorConfig_ctor =
     \<lparr>numThreads = 1, dryRun = False, verbose = False, stopOnError = True, colorOutput = True\<rparr>"

text \<open>
  The counters of \<open>BuildStats\<close>; \<open>elapsedSeconds\<close>, which \<open>executeWithStats\<close> fills from
  the clock after the build, is left out.
\<close>

record buildStats =
  totalTargets :: nat
  builtTargets :: nat
  skippedTargets :: nat
  failedTargets :: nat

definition BuildStats_ctor :: buildStats where
  "BuildStats_ctor = \<lparr>totalTargets = 0, builtTargets = 0, skippedTargets = 0, failedTargets = 0\<rparr>"

text \<open>
  What an execution lets the outside see, in the order it happens: a status line of
  \<open>printStatus\<close> (status, target name), a call of the progress callback (name, current,
  total, status), a call of the command runner (target name, command, result) and a call
  of \<open>Cache::setSignature\<close> (name, signature).
\<close>

datatype event =
    Status string string
  | Progress string nat nat string
  | Ran string string bool
  | CacheSet string string

record collaborators =
  runSimple :: "string \<Rightarrow> world \<Rightarrow> bool \<times> world"
  progressCallback :: "(string \<Rightarrow> nat \<Rightarrow> nat \<Rightarrow> string \<Rightarrow> world \<Rightarrow> world) option"

record exec_state =
  env :: world
  cacheOf :: cache
  stats :: buildStats
  trace :: "event list"

definition isOutOfDate :: "target \<Rightarrow> exec_state \<Rightarrow> bool" where
  "isOutOfDate target st =
     needsRebuild (cacheOf st) (getName target)
       (computeTargetSignature (files (env st)) (getCommand target) (getInputs target))"

definition runCommand :: "executorConfig \<Rightarrow> collaborators \<Rightarrow> target \<Rightarrow> exec_state \<Rightarrow> bool \<times> exec_state" where
  "runCommand cfg col target st =
     (if dryRun cfg then (True, st)
      else (case runSimple col (getCommand target) (env st) of
              (ok, w) \<Rightarrow> (ok, st\<lparr>env := w, trace := trace st @ [Ran (getName target) (getCommand target) ok]\<rparr>)))"

text \<open>
  \<open>printStatus\<close> writes one line to the standard output; the colour and the optional
  message (\<open>colorOutput\<close>, \<open>verbose\<close>) change how the line looks only.
\<close>

definition printStatus :: "string \<Rightarrow> string \<Rightarrow> exec_state \<Rightarrow> exec_state" where
  "printStatus status targetName st = st\<lparr>trace := trace st @ [Status status targetName]\<rparr>"

text \<open>\<open>if (progressCallback_) progressCallback_(targetName, current, total, status);\<close>\<close>

definition notify :: "collaborators \<Rightarrow> string \<Rightarrow> nat \<Rightarrow> nat \<Rightarrow> string \<Rightarrow> exec_state \<Rightarrow> exec_state" where
  "notify col targetName current totalN status st =
     (case progressCallback col of
        None \<Rightarrow> st
      | Some cb \<Rightarrow> st\<lparr>env := cb targetName current totalN status (env st),
                       trace := trace st @ [Progress targetName current totalN status]\<rparr>)"

text \<open>The loop over the declared outputs: a file that cannot be opened ends it.\<close>

fun outputsExist :: "filesys \<Rightarrow> string list \<Rightarrow> bool" where
  "outputsExist fs [] = True"
| "outputsExist fs (output # rest) =
     (if contents fs output = None then False else outputsExist fs rest)"

text \<open>The two lines that compute \<open>newSig\<close> and store it.\<close>

definition storeSignature :: "target \<Rightarrow> exec_state \<Rightarrow> exec_state" where
  "storeSignature target st =
     (let newSig = computeTargetSignature (files (env st)) (getCommand target) (getInputs target)
      in st\<lparr>cacheOf := setSignature (getName target) newSig (cacheOf st),
             trace := trace st @ [CacheSet (getName target) newSig]\<rparr>)"

definition executeTarget :: "executorConfig \<Rightarrow> collaborators \<Rightarrow> target \<Rightarrow> exec_state \<Rightarrow> bool \<times> exec_state" where
  "executeTarget cfg col target st =
     (if cancelled (env st) then (False, st)
      else if outputsExist (files (env st)) (getOutputs target) \<and> \<not> isOutOfDate target st
      then (True, printStatus ''UP-TO-DATE'' (getName target) st)
      else (case runCommand cfg col target (printStatus ''BUILD'' (getName target) st) of
              (ok, st1) \<Rightarrow>
                if \<not> ok then (False, printStatus ''FAILED'' (getName target) st1)
                else (True, printStatus ''SUCCESS'' (getName target) (storeSignature target st1))))"

text \<open>
  \<open>Executor::executeSingleThreaded\<close>. One round of the loop body either goes on with the
  next name (\<open>continue\<close>, or the end of the body) or leaves the function (\<open>return false\<close>
  under stop-on-error).
\<close>

datatype loop_control = Continue | Return bool

definition singleBody ::
  "executorConfig \<Rightarrow> collaborators \<Rightarrow> dag \<Rightarrow> string \<Rightarrow> nat \<Rightarrow> exec_state \<Rightarrow> loop_control \<times> exec_state" where
  "singleBody cfg col dag targetName current st =
     (case getTarget dag targetName of
        None \<Rightarrow> (Continue, st)
      | Some target \<Rightarrow>
          (let totalN = totalTargets (stats st);
               st1 = notify col targetName current totalN ''BUILDING'' st
           in if outputsExist (files (env st1)) (getOutputs target) \<and> \<not> isOutOfDate target st1
              then (Continue,
                    notify col targetName current totalN ''UP-TO-DATE''
                      ((printStatus ''UP-TO-DATE'' (getName target) st1)
                         \<lparr>stats := (stats st1)\<lparr>skippedTargets := Suc (skippedTargets (stats st1))\<rparr>\<rparr>))
              else (case runCommand cfg col target (printStatus ''BUILD'' (getName target) st1) of
                      (ok, st2) \<Rightarrow>
                        if \<not> ok
                        then (if stopOnError cfg then Return False else Continue,
                              notify col targetName current totalN ''FAILED''
                                ((printStatus ''FAILED'' (getName target) st2)
                                   \<lparr>stats := (stats st2)\<lparr>failedTargets := Suc (failedTargets (stats st2))\<rparr>\<rparr>))
                        else (let st3 = printStatus ''SUCCESS'' (getName target) (storeSignature target st2)
                              in (Continue,
                                  notify col targetName current totalN ''SUCCESS''
                                    (st3\<lparr>stats := (stats st3)\<lparr>builtTargets := Suc (builtTargets (stats st3))\<rparr>\<rparr>))))))"

fun singleLoop ::
  "executorConfig \<Rightarrow> collaborators \<Rightarrow> dag \<Rightarrow> string list \<Rightarrow> nat \<Rightarrow> exec_state \<Rightarrow> bool \<times> exec_state" where
  "singleLoop cfg col dag [] current st = (failedTargets (stats st) = 0, st)"
| "singleLoop cfg col dag (targetName # rest) current st =
     (if cancelled (env st) then (False, st)
      else (case singleBody cfg col dag targetName (Suc current) st of
              (Return b, st') \<Rightarrow> (b, st')
            | (Continue, st') \<Rightarrow> singleLoop cfg col dag rest (Suc current) st'))"

definition executeSingleThreaded ::
  "executorConfig \<Rightarrow> collaborators \<Rightarrow> string list \<Rightarrow> dag \<Rightarrow> exec_state \<Rightarrow> bool \<times> exec_state" where
  "executeSingleThreaded cfg col inDegreeOrder dag st =
     (let order = topologicalSort inDegreeOrder dag
      in singleLoop cfg col dag order 0 (st\<lparr>stats := (stats st)\<lparr>totalTargets := length order\<rparr>\<rparr>))"

text \<open>
  \<open>Executor::executeMultiThreaded\<close>. The maps \<open>completed\<close> and \<open>inProgress\<close> are
  \<open>unordered_map<string, bool>\<close>, kept as association lists; reading \<open>m[k]\<close> for a key that
  is not there inserts it with the value \<open>false\<close>, which the loop \<open>allDone\<close> then meets.
\<close>

type_synonym flags = "(string \<times> bool) list"

definition flagRead :: "flags \<Rightarrow> string \<Rightarrow> bool \<times> flags" where
  "flagRead m k = (case map_of m k of None \<Rightarrow> (False, m @ [(k, False)]) | Some v \<Rightarrow> (v, m))"

fun flagWrite :: "flags \<Rightarrow> string \<Rightarrow> bool \<Rightarrow> flags" where
  "flagWrite [] k v = [(k, v)]"
| "flagWrite ((k', v') # m) k v = (if k' = k then (k, v) # m else (k', v') # flagWrite m k v)"

text \<open>
  A worker thread is at one of these points of the lambda \<open>worker\<close>: at the head of the
  loop; in \<open>cv.wait\<close>; past the wait, holding the mutex; past the locked block with the
  name it picked (empty when it found none); before the check of the outputs; before the
  command; before the signature is stored; before the line SUCCESS or FAILED; before the
  locked update of the statistics; before the locked update of \<open>completed\<close>; returned.
  Every step between two points is one action of the schedule, so the schedules are the
  interleavings of the threads (and of calls of \<open>cancel()\<close> and \<open>resetCancelled()\<close> from
  other threads).
\<close>

datatype outcome = Skipped | Built | Failed

datatype worker =
    AtTop
  | Waiting
  | Woken
  | Picked string
  | Checking string
  | Running string
  | Signing string
  | Succeeding string
  | Failing string
  | Counting string outcome
  | Completing string bool
  | Finished

record mt_state =
  shared :: exec_state
  completed :: flags
  inProgress :: flags
  failed :: bool
  processedCount :: nat
  mtx :: "nat option"
  workers :: "worker list"

datatype action = Worker nat | Cancel | ResetCancelled

fun canExecuteDeps :: "string list \<Rightarrow> flags \<Rightarrow> bool \<times> flags" where
  "canExecuteDeps [] cflags = (True, cflags)"
| "canExecuteDeps (dep # deps) cflags =
     (case flagRead cflags dep of
        (isDone, cflags') \<Rightarrow> if \<not> isDone then (False, cflags') else canExecuteDeps deps cflags')"

definition canExecute :: "target \<Rightarrow> flags \<times> flags \<Rightarrow> bool \<times> flags \<times> flags" where
  "canExecute target fl =
     (case fl of (cflags, pflags) \<Rightarrow>
      case canExecuteDeps (getDependencies target) cflags of
        (False, cflags') \<Rightarrow> (False, cflags', pflags)
      | (True, cflags') \<Rightarrow>
          (case flagRead pflags (getName target) of (busy, pflags') \<Rightarrow> (\<not> busy, cflags', pflags')))"

text \<open>The loop over \<open>order\<close> that looks for a target to run: \<open>t && !completed[name] && canExecute(*t)\<close>.\<close>

fun findReady :: "dag \<Rightarrow> string list \<Rightarrow> flags \<times> flags \<Rightarrow> string option \<times> flags \<times> flags" where
  "findReady dag [] fl = (None, fl)"
| "findReady dag (name # rest) fl =
     (case getTarget dag name of
        None \<Rightarrow> findReady dag rest fl
      | Some t \<Rightarrow>
          (case fl of (cflags, pflags) \<Rightarrow>
           case flagRead cflags name of
             (isDone, cflags') \<Rightarrow>
               if isDone then findReady dag rest (cflags', pflags)
               else (case canExecute t (cflags', pflags) of
                       (True, fl') \<Rightarrow> (Some name, fl')
                     | (False, fl') \<Rightarrow> findReady dag rest fl')))"

definition allDone :: "flags \<Rightarrow> bool" where
  "allDone cflags = list_all snd cflags"

text \<open>The predicate of \<open>cv.wait\<close>.\<close>

definition waitPredicate ::
  "executorConfig \<Rightarrow> dag \<Rightarrow> string list \<Rightarrow> mt_state \<Rightarrow> bool \<times> flags \<times> flags" where
  "waitPredicate cfg dag order s =
     (if failed s \<and> stopOnError cfg then (True, completed s, inProgress s)
      else if cancelled (env (shared s)) then (True, completed s, inProgress s)
      else if allDone (completed s) then (True, completed s, inProgress s)
      else (case findReady dag order (completed s, inProgress s) of
              (found, fl) \<Rightarrow> (found \<noteq> None, fl)))"

definition setWorker :: "nat \<Rightarrow> worker \<Rightarrow> mt_state \<Rightarrow> mt_state" where
  "setWorker i w s = s\<lparr>workers := (workers s)[i := w]\<rparr>"

definition bump :: "outcome \<Rightarrow> buildStats \<Rightarrow> buildStats" where
  "bump oc b =
     (case oc of
        Skipped \<Rightarrow> b\<lparr>skippedTargets := Suc (skippedTargets b)\<rparr>
      | Built \<Rightarrow> b\<lparr>builtTargets := Suc (builtTargets b)\<rparr>
      | Failed \<Rightarrow> b\<lparr>failedTargets := Suc (failedTargets b)\<rparr>)"

text \<open>
  One step of worker \<open>i\<close>. A worker that needs the mutex while another holds it, or whose
  wait predicate is false, stays where it is.
\<close>

definition workerStep ::
  "executorConfig \<Rightarrow> collaborators \<Rightarrow> dag \<Rightarrow> string list \<Rightarrow> nat \<Rightarrow> mt_state \<Rightarrow> mt_state" where
  "workerStep cfg col dag order i s =
     (if length (workers s) \<le> i then s else
      case workers s ! i of
        AtTop \<Rightarrow> setWorker i (if cancelled (env (shared s)) then Finished else Waiting) s
      | Waiting \<Rightarrow>
          (if mtx s \<noteq> None then s
           else (case waitPredicate cfg dag order s of
                   (True, cflags, pflags) \<Rightarrow>
                     setWorker i Woken (s\<lparr>completed := cflags, inProgress := pflags, mtx := Some i\<rparr>)
                 | (False, cflags, pflags) \<Rightarrow> s\<lparr>completed := cflags, inProgress := pflags\<rparr>))
      | Woken \<Rightarrow>
          (if cancelled (env (shared s)) \<or> (failed s \<and> stopOnError cfg)
           then setWorker i Finished (s\<lparr>mtx := None\<rparr>)
           else if allDone (completed s) then setWorker i Finished (s\<lparr>mtx := None\<rparr>)
           else (case findReady dag order (completed s, inProgress s) of
                   (None, cflags, pflags) \<Rightarrow>
                     setWorker i (Picked []) (s\<lparr>completed := cflags, inProgress := pflags, mtx := None\<rparr>)
                 | (Some name, cflags, pflags) \<Rightarrow>
                     setWorker i (Picked name)
                       (s\<lparr>completed := cflags, inProgress := flagWrite pflags name True, mtx := None\<rparr>)))
      | Picked name \<Rightarrow>
          (if name = [] then setWorker i AtTop s
           else (case getTarget dag name of
                   None \<Rightarrow> setWorker i AtTop s
                 | Some target \<Rightarrow>
                     setWorker i (Checking name)
                       (s\<lparr>processedCount := Suc (processedCount s),
                          shared := notify col name (Suc (processedCount s))
                                      (totalTargets (stats (shared s))) ''BUILDING'' (shared s)\<rparr>)))
      | Checking name \<Rightarrow>
          (case getTarget dag name of
             None \<Rightarrow> setWorker i AtTop s
           | Some target \<Rightarrow>
               if outputsExist (files (env (shared s))) (getOutputs target) \<and> \<not> isOutOfDate target (shared s)
               then setWorker i (Counting name Skipped)
                      (s\<lparr>shared := printStatus ''UP-TO-DATE'' (getName target) (shared s)\<rparr>)
               else setWorker i (Running name)
                      (s\<lparr>shared := printStatus ''BUILD'' (getName target) (shared s)\<rparr>))
      | Running name \<Rightarrow>
          (case getTarget dag name of
             None \<Rightarrow> setWorker i AtTop s
           | Some target \<Rightarrow>
               (case runCommand cfg col target (shared s) of
                  (ok, st) \<Rightarrow> setWorker i (if ok then Signing name else Failing name) (s\<lparr>shared := st\<rparr>)))
      | Signing name \<Rightarrow>
          (case getTarget dag name of
             None \<Rightarrow> setWorker i AtTop s
           | Some target \<Rightarrow> setWorker i (Succeeding name) (s\<lparr>shared := storeSignature target (shared s)\<rparr>))
      | Succeeding name \<Rightarrow>
          (case getTarget dag name of
             None \<Rightarrow> setWorker i AtTop s
           | Some target \<Rightarrow>
               setWorker i (Counting name Built)
                 (s\<lparr>shared := printStatus ''SUCCESS'' (getName target) (shared s)\<rparr>))
      | Failing name \<Rightarrow>
          (case getTarget dag name of
             None \<Rightarrow> setWorker i AtTop s
           | Some target \<Rightarrow>
               setWorker i (Counting name Failed)
                 (s\<lparr>shared := printStatus ''FAILED'' (getName target) (shared s)\<rparr>))
      | Counting name oc \<Rightarrow>
          (if mtx s \<noteq> None then s
           else setWorker i (Completing name (oc \<noteq> Failed))
                  (s\<lparr>shared := (shared s)\<lparr>stats := bump oc (stats (shared s))\<rparr>\<rparr>))
      | Completing name success \<Rightarrow>
          (if mtx s \<noteq> None then s
           else setWorker i AtTop
                  (s\<lparr>inProgress := flagWrite (inProgress s) name False,
                     completed := flagWrite (completed s) name True,
                     failed := (if success then failed s else True)\<rparr>))
      | Finished \<Rightarrow> s)"

definition setCancelled :: "bool \<Rightarrow> mt_state \<Rightarrow> mt_state" where
  "setCancelled b s = s\<lparr>shared := (shared s)\<lparr>env := (env (shared s))\<lparr>cancelled := b\<rparr>\<rparr>\<rparr>"

fun mtStep ::
  "executorConfig \<Rightarrow> collaborators \<Rightarrow> dag \<Rightarrow> string list \<Rightarrow> mt_state \<Rightarrow> action \<Rightarrow> mt_state" where
  "mtStep cfg col dag order s (Worker i) = workerStep cfg col dag order i s"
| "mtStep cfg col dag order s Cancel = setCancelled True s"
| "mtStep cfg col dag order s ResetCancelled = setCancelled False s"

definition mtInit :: "executorConfig \<Rightarrow> string list \<Rightarrow> exec_state \<Rightarrow> mt_state" where
  "mtInit cfg order st =
     \<lparr>shared = st\<lparr>stats := (stats st)\<lparr>totalTargets := length order\<rparr>\<rparr>,
      completed = fold (\<lambda>name m. flagWrite m name False) order [],
      inProgress = fold (\<lambda>name m. flagWrite m name False) order [],
      failed = False,
      processedCount = 0,
      mtx = None,
      workers = replicate (nat (numThreads cfg)) AtTop\<rparr>"

text \<open>
  The function returns \<open>!failed\<close> once every thread has been joined; a schedule that leaves
  a worker short of its return gives no result (\<open>None\<close>), and the state reached so far.
\<close>

definition executeMultiThreaded ::
  "executorConfig \<Rightarrow> collaborators \<Rightarrow> string list \<Rightarrow> dag \<Rightarrow> action list \<Rightarrow> exec_state \<Rightarrow>
   bool option \<times> exec_state" where
  "executeMultiThreaded cfg col inDegreeOrder dag schedule st =
     (let order = topologicalSort inDegreeOrder dag;
          s = foldl (mtStep cfg col dag order) (mtInit cfg order st) schedule
      in (if list_all (\<lambda>w. w = Finished) (workers s) then Some (\<not> failed s) else None, shared s))"

definition executeWithStats ::
  "executorConfig \<Rightarrow> collaborators \<Rightarrow> string list \<Rightarrow> dag \<Rightarrow> action list \<Rightarrow> exec_state \<Rightarrow>
   bool option \<times> exec_state" where
  "executeWithStats cfg col inDegreeOrder dag schedule st =
     (if numThreads cfg \<le> 1
      then (case executeSingleThreaded cfg col inDegreeOrder dag st of (ok, st') \<Rightarrow> (Some ok, st'))
      else executeMultiThreaded cfg col inDegreeOrder dag schedule st)"

text \<open>
  The state a build starts in: fresh statistics, nothing emitted yet. \<open>quietRunner ok\<close> is a
  command runner that answers \<open>ok\<close> to every command and touches nothing, with no progress
  callback registered; \<open>watchedRunner ok\<close> is the same with a callback that only listens.
\<close>

definition freshState :: "filesys \<Rightarrow> bool \<Rightarrow> cache \<Rightarrow> exec_state" where
  "freshState fs c cch = \<lparr>env = \<lparr>files = fs, cancelled = c\<rparr>, cacheOf = cch, stats = BuildStats_ctor, trace = []\<rparr>"

definition quietRunner :: "bool \<Rightarrow> collaborators" where
  "quietRunner ok = \<lparr>runSimple = (\<lambda>command w. (ok, w)), progressCallback = None\<rparr>"

definition watchedRunner :: "bool \<Rightarrow> collaborators" where
  "watchedRunner ok =
     \<lparr>runSimple = (\<lambda>command w. (ok, w)), progressCallback = Some (\<lambda>targetName current totalN status w. w)\<rparr>"

definition noFiles :: filesys where
  "noFiles = \<lparr>contents = (\<lambda>path. None), creatable = (\<lambda>path. False)\<rparr>"

text \<open>A build that starts with the current signature of \<open>target\<close> in the cache.\<close>

definition cachedState :: "filesys \<Rightarrow> target \<Rightarrow> exec_state" where
  "cachedState fs target =
     freshState fs False
       (setSignature (getName target)
          (computeTargetSignature fs (getCommand target) (getInputs target)) (Cache_ctor ''.mimir''))"

subsection \<open>What the executor's properties speak about\<close>

text \<open>The events of one call: what the trace has gained.\<close>

definition emitted :: "exec_state \<Rightarrow> exec_state \<Rightarrow> event list" where
  "emitted st st' = drop (length (trace st)) (trace st')"

text \<open>Every declared output can be opened and the cache does not ask for a rebuild.\<close>

definition up_to_date :: "target \<Rightarrow> exec_state \<Rightarrow> bool" where
  "up_to_date target st =
     ((\<forall>output \<in> set (getOutputs target). contents (files (env st)) output \<noteq> None) \<and>
      \<not> needsRebuild (cacheOf st) (getName target)
          (computeTargetSignature (files (env st)) (getCommand target) (getInputs target)))"

definition skipped_without_run :: "target \<Rightarrow> event list \<Rightarrow> bool" where
  "skipped_without_run target evs =
     (Status ''UP-TO-DATE'' (getName target) \<in> set evs \<and>
      (\<forall>c b. Ran (getName target) c b \<notin> set evs))"

text \<open>The cache that the writes of a trace leave behind.\<close>

definition applyEvent :: "event \<Rightarrow> cache \<Rightarrow> cache" where
  "applyEvent e c = (case e of CacheSet n sg \<Rightarrow> setSignature n sg c | _ \<Rightarrow> c)"

definition replay :: "event list \<Rightarrow> cache \<Rightarrow> cache" where
  "replay tr c = fold applyEvent tr c"

text \<open>
  Every write of a cache entry comes after the line BUILD of its target and, unless
  \<open>lenient\<close>, after a successful run of that target's command.
\<close>

definition cache_writes_ok :: "bool \<Rightarrow> event list \<Rightarrow> bool" where
  "cache_writes_ok lenient tr =
     (\<forall>i<length tr. \<forall>n sg. tr ! i = CacheSet n sg \<longrightarrow>
        Status ''BUILD'' n \<in> set (take i tr) \<and>
        (\<not> lenient \<longrightarrow> (\<exists>c. Ran n c True \<in> set (take i tr))))"

definition cache_inv :: "executorConfig \<Rightarrow> cache \<Rightarrow> exec_state \<Rightarrow> bool" where
  "cache_inv cfg c0 st =
     (cacheOf st = replay (trace st) c0 \<and> cache_writes_ok (dryRun cfg) (trace st))"

definition worker_cache_ok :: "executorConfig \<Rightarrow> dag \<Rightarrow> event list \<Rightarrow> worker \<Rightarrow> bool" where
  "worker_cache_ok cfg dag tr w =
     (case w of
        Running name \<Rightarrow>
          (\<forall>target. getTarget dag name = Some target \<longrightarrow> Status ''BUILD'' (getName target) \<in> set tr)
      | Signing name \<Rightarrow>
          (\<forall>target. getTarget dag name = Some target \<longrightarrow>
             Status ''BUILD'' (getName target) \<in> set tr \<and>
             (\<not> dryRun cfg \<longrightarrow> (\<exists>c. Ran (getName target) c True \<in> set tr)))
      | _ \<Rightarrow> True)"

definition mt_cache_inv :: "executorConfig \<Rightarrow> dag \<Rightarrow> cache \<Rightarrow> mt_state \<Rightarrow> bool" where
  "mt_cache_inv cfg dag c0 s =
     (cache_inv cfg c0 (shared s) \<and>
      (\<forall>w \<in> set (workers s). worker_cache_ok cfg dag (trace (shared s)) w))"

text \<open>
  A target has finished, as far as the given statuses tell, when one of them has been
  printed for it; a trace is ordered when every call of the callback with BUILDING for a
  target comes after each of its declared dependencies has finished.
\<close>

definition finished_by :: "string list \<Rightarrow> string \<Rightarrow> event list \<Rightarrow> bool" where
  "finished_by statuses d tr = (\<exists>s \<in> set statuses. Status s d \<in> set tr)"

definition ordered_by :: "string list \<Rightarrow> dag \<Rightarrow> event list \<Rightarrow> bool" where
  "ordered_by statuses dag tr =
     (\<forall>i<length tr. \<forall>t c n. tr ! i = Progress t c n ''BUILDING'' \<longrightarrow>
        (\<forall>d \<in> set (dependenciesOf dag t). finished_by statuses d (take i tr)))"

definition finished :: "string \<Rightarrow> event list \<Rightarrow> bool" where
  "finished d tr = finished_by [''UP-TO-DATE'', ''SUCCESS'', ''FAILED''] d tr"

definition building_ok :: "dag \<Rightarrow> event list \<Rightarrow> bool" where
  "building_ok dag tr = ordered_by [''UP-TO-DATE'', ''SUCCESS'', ''FAILED''] dag tr"

definition build_inv :: "dag \<Rightarrow> string set \<Rightarrow> exec_state \<Rightarrow> bool" where
  "build_inv dag fin st =
     (building_ok dag (trace st) \<and> (\<forall>n \<in> fin. finished n (trace st)))"

definition isCompleted :: "flags \<Rightarrow> string \<Rightarrow> bool" where
  "isCompleted m k = fst (flagRead m k)"

definition worker_build_ok :: "dag \<Rightarrow> event list \<Rightarrow> worker \<Rightarrow> bool" where
  "worker_build_ok dag tr w =
     (case w of
        Picked name \<Rightarrow> name \<noteq> [] \<longrightarrow> (\<forall>d \<in> set (dependenciesOf dag name). finished d tr)
      | Counting name oc \<Rightarrow> finished name tr
      | Completing name success \<Rightarrow> finished name tr
      | _ \<Rightarrow> True)"

definition mt_build_inv :: "dag \<Rightarrow> mt_state \<Rightarrow> bool" where
  "mt_build_inv dag s =
     (building_ok dag (trace (shared s)) \<and>
      (\<forall>n. isCompleted (completed s) n \<longrightarrow> finished n (trace (shared s))) \<and>
      (\<forall>w \<in> set (workers s). worker_build_ok dag (trace (shared s)) w))"

section \<open>Properties\<close>

subsection \<open>Signature service\<close>

lemma length_hex8: "length (hex8 w) = 8"
  by (simp add: hex8_def)

lemma hexdigit_in: "n < 16 \<Longrightarrow> hexdigit n \<in> set ''0123456789abcdef''"
  unfolding hexdigit_def by (rule nth_mem) simp

lemma nibble_lt: "unat ((w :: u32) AND 15) < 16"
proof -
  have "unat (w AND 15) \<le> unat (15 :: u32)"
    by (rule word_and_le1 [THEN word_le_nat_alt [THEN iffD1]])
  then show ?thesis by simp
qed

lemma hex8_chars: "set (hex8 w) \<subseteq> set ''0123456789abcdef''"
  unfolding hex8_def using hexdigit_in[OF nibble_lt] by auto

lemma hex8_consts:
  "hex8 0xa54ff53a @ hex8 0x510e527f @ hex8 0x9b05688c @ hex8 0x1f83d9ab @ hex8 0x5be0cd19
   = ''a54ff53a510e527f9b05688c1f83d9ab5be0cd19''"
  by (simp add: hex8_def hexdigit_def drop_bit_eq_div)


lemma foldl_step_third:
  "snd (snd (foldl sha256_step (a, b, c) xs)) = c + sum_list (map of_char xs)"
  by (induction xs arbitrary: a b c) (simp_all add: Let_def add.assoc)

lemma of_char_nat_lt: "(of_char c :: nat) < 256"
  by (metis of_char_mod_256 mod_less_divisor zero_less_numeral)

lemma unat_of_char: "unat (of_char c :: u32) = of_char c"
proof -
  have "(of_char c :: u32) = of_nat (of_char c)" by (simp add: of_nat_of_char)
  moreover have "(of_char c :: nat) < 2 ^ 32"
    by (rule less_trans[OF of_char_nat_lt]) simp
  ultimately show ?thesis by (simp add: unat_of_nat take_bit_nat_eq_self)
qed

lemma of_char_word_inj: "(of_char c :: u32) = of_char d \<Longrightarrow> c = d"
  by (metis unat_of_char of_char_eq_iff)

lemma hexdigit_inj: "m < 16 \<Longrightarrow> n < 16 \<Longrightarrow> hexdigit m = hexdigit n \<Longrightarrow> m = n"
proof -
  assume m: "m < 16" and n: "n < 16" and e: "hexdigit m = hexdigit n"
  have d: "distinct ''0123456789abcdef''" by simp
  have l: "length ''0123456789abcdef'' = 16" by simp
  show ?thesis using e m n unfolding hexdigit_def
    by (metis d l nth_eq_iff_index_eq)
qed

lemma nibble_eq: "hexdigit (unat ((v::u32) AND 15)) = hexdigit (unat ((w::u32) AND 15)) \<Longrightarrow> v AND 15 = w AND 15"
  using hexdigit_inj[OF nibble_lt nibble_lt] by (metis word_unat_eq_iff)

lemma hex8_inj: "hex8 v = hex8 w \<Longrightarrow> v = w"
proof -
  assume a: "hex8 v = hex8 w"
  have n: "drop_bit (4 * i) v AND 15 = drop_bit (4 * i) w AND 15" if "i \<in> {0,1,2,3,4,5,6,7}" for i
    using a that unfolding hex8_def by (auto dest: nibble_eq)
  show ?thesis
  proof (rule bit_word_eqI)
    fix k assume k: "k < LENGTH(32)"
    have "k div 4 \<in> {0,1,2,3,4,5,6,7::nat}" using k by auto
    from n[OF this] have "bit (drop_bit (4 * (k div 4)) v AND 15) (k mod 4) = bit (drop_bit (4 * (k div 4)) w AND 15) (k mod 4)"
      by simp
    moreover have "(15 :: u32) = mask 4" by (simp add: mask_eq_exp_minus_1)
    moreover have "4 * (k div 4) + k mod 4 = k" by simp
    moreover have "k mod 4 < 32" by (rule less_trans[of _ 4]) simp_all
    ultimately show "bit v k = bit w k"
      using k by (simp add: bit_and_iff bit_drop_bit_eq bit_mask_iff)
  qed
qed

lemma sum_list_update_neq:
  "i < length xs \<Longrightarrow> c \<noteq> xs ! i \<Longrightarrow>
   (sum_list (map of_char (xs[i := c])) :: u32) \<noteq> sum_list (map of_char xs)"
proof -
  assume i: "i < length xs" and c: "c \<noteq> xs ! i"
  have x: "xs = take i xs @ (xs ! i) # drop (Suc i) xs" using i by (simp add: id_take_nth_drop)
  have u: "xs[i := c] = take i xs @ c # drop (Suc i) xs" using i by (simp add: upd_conv_take_nth_drop)
  have "sum_list (map of_char (take i xs @ c # drop (Suc i) xs)) \<noteq> (sum_list (map of_char (take i xs @ (xs ! i) # drop (Suc i) xs)) :: u32)"
    using c of_char_word_inj by auto
  then show ?thesis using x u by metis
qed

lemma sha256_byte_sensitive:
  "i < length xs \<Longrightarrow> c \<noteq> xs ! i \<Longrightarrow> sha256 (xs[i := c]) \<noteq> sha256 xs"
proof -
  assume i: "i < length xs" and c: "c \<noteq> xs ! i"
  obtain a b d where h: "foldl sha256_step (0x6a09e667, 0xbb67ae85, 0x3c6ef372) xs = (a, b, d)"
    by (metis prod_cases3)
  obtain a' b' d' where h': "foldl sha256_step (0x6a09e667, 0xbb67ae85, 0x3c6ef372) (xs[i := c]) = (a', b', d')"
    by (metis prod_cases3)
  have "d = 0x3c6ef372 + sum_list (map of_char xs)" using foldl_step_third[of _ _ _ xs] h by (metis snd_conv)
  moreover have "d' = 0x3c6ef372 + sum_list (map of_char (xs[i := c]))" using foldl_step_third[of _ _ _ "xs[i := c]"] h' by (metis snd_conv)
  ultimately have "d' \<noteq> d" using sum_list_update_neq[OF i c] by simp
  then have "hex8 d' \<noteq> hex8 d" using hex8_inj by blast
  then show ?thesis unfolding sha256_def h h' by (simp add: length_hex8)
qed

lemma combined_append:
  "foldl (\<lambda>combined input. combined @ ''|'' @ computeFileSignature fs input) command inputs
   = command @ concat (map (\<lambda>input. ''|'' @ computeFileSignature fs input) inputs)"
  by (induction inputs arbitrary: command) simp_all

text \<open>
  Claim C10. For every input string, \<open>Signature::sha256\<close> returns exactly 64 lower-case
  hexadecimal characters, and the last 40 of them are the fixed string
  \<open>a54ff53a510e527f9b05688c1f83d9ab5be0cd19\<close>, whatever the input: only the first 24
  characters (the words \<open>h0\<close>, \<open>h1\<close>, \<open>h2\<close>) depend on the data.
\<close>

theorem sha256_shape:
  "length (sha256 data) = 64 \<and>
   set (sha256 data) \<subseteq> set ''0123456789abcdef'' \<and>
   drop 24 (sha256 data) = ''a54ff53a510e527f9b05688c1f83d9ab5be0cd19''"
proof -
  obtain h0 h1 h2 where h: "foldl sha256_step (0x6a09e667, 0xbb67ae85, 0x3c6ef372) data = (h0, h1, h2)"
    by (metis prod_cases3)
  have s: "sha256 data = hex8 h0 @ hex8 h1 @ hex8 h2 @ ''a54ff53a510e527f9b05688c1f83d9ab5be0cd19''"
    unfolding sha256_def h using hex8_consts by simp
  have 1: "length (sha256 data) = 64" by (simp add: s length_hex8)
  have 2: "set (sha256 data) \<subseteq> set ''0123456789abcdef''"
    unfolding s using hex8_chars[of h0] hex8_chars[of h1] hex8_chars[of h2] by auto
  have 3: "drop 24 (sha256 data) = ''a54ff53a510e527f9b05688c1f83d9ab5be0cd19''"
    by (simp add: s length_hex8)
  from 1 2 3 show ?thesis by blast
qed

text \<open>
  Claim C7, as amended. The target signature is the hash of the command followed, for
  each input in the given order, by \<open>|\<close> and the file signature of that input (empty
  for a file that cannot be opened). It therefore depends on the inputs only through the
  sequence of their file signatures: two input lists with the same sequence of file
  signatures give the same target signature, so reordering inputs changes the signature
  only if it changes that sequence. Replacing exactly one byte of the command string
  changes the target signature, and replacing exactly one byte of a readable input file
  changes that file's signature.
\<close>

theorem target_signature_contract:
  "computeTargetSignature fs command inputs
     = sha256 (command @ concat (map (\<lambda>input. ''|'' @ computeFileSignature fs input) inputs)) \<and>
   (map (computeFileSignature fs') inputs' = map (computeFileSignature fs) inputs \<longrightarrow>
      computeTargetSignature fs' command inputs' = computeTargetSignature fs command inputs) \<and>
   (i < length command \<and> c \<noteq> command ! i \<longrightarrow>
      computeTargetSignature fs (command[i := c]) inputs \<noteq> computeTargetSignature fs command inputs) \<and>
   (i < length bytes \<and> c \<noteq> bytes ! i \<longrightarrow>
      computeFileSignature (fs\<lparr>contents := (contents fs)(p \<mapsto> bytes[i := c])\<rparr>) p
        \<noteq> computeFileSignature (fs\<lparr>contents := (contents fs)(p \<mapsto> bytes)\<rparr>) p)"
proof (intro conjI impI)
  show eq: "computeTargetSignature fs command inputs
     = sha256 (command @ concat (map (\<lambda>input. ''|'' @ computeFileSignature fs input) inputs))"
    for fs command inputs
    unfolding computeTargetSignature_def combined_append by (rule refl)
  show "computeTargetSignature fs' command inputs' = computeTargetSignature fs command inputs"
    if m: "map (computeFileSignature fs') inputs' = map (computeFileSignature fs) inputs"
  proof -
    have "map (\<lambda>input. ''|'' @ computeFileSignature fs' input) inputs'
        = map (\<lambda>sg. ''|'' @ sg) (map (computeFileSignature fs') inputs')"
      by simp
    also have "\<dots> = map (\<lambda>sg. ''|'' @ sg) (map (computeFileSignature fs) inputs)"
      by (simp only: m)
    also have "\<dots> = map (\<lambda>input. ''|'' @ computeFileSignature fs input) inputs"
      by simp
    finally show ?thesis unfolding eq by (rule arg_cong)
  qed
  show "computeTargetSignature fs (command[i := c]) inputs \<noteq> computeTargetSignature fs command inputs"
    if h: "i < length command \<and> c \<noteq> command ! i"
  proof -
    let ?rest = "concat (map (\<lambda>input. ''|'' @ computeFileSignature fs input) inputs)"
    have "(command @ ?rest)[i := c] = command[i := c] @ ?rest"
      using h by (simp add: list_update_append1)
    moreover have "sha256 ((command @ ?rest)[i := c]) \<noteq> sha256 (command @ ?rest)"
      using h by (intro sha256_byte_sensitive) (simp_all add: nth_append)
    ultimately show ?thesis unfolding eq by simp
  qed
  show "computeFileSignature (fs\<lparr>contents := (contents fs)(p \<mapsto> bytes[i := c])\<rparr>) p
        \<noteq> computeFileSignature (fs\<lparr>contents := (contents fs)(p \<mapsto> bytes)\<rparr>) p"
    if h: "i < length bytes \<and> c \<noteq> bytes ! i"
    using sha256_byte_sensitive[of i bytes c] h by (simp add: computeFileSignature_def)
qed

text \<open>
  The contract at concrete inputs: the signature of a target with one input is the hash
  of the command, the separator and the 64 characters of the file signature; a missing
  input contributes the separator alone; two inputs with equal contents give the same
  signature in either order; the commands \<open>cc a.c\<close> and \<open>gc a.c\<close> differ in one byte
  and have different signatures; and so have the file contents \<open>content1\<close> and
  \<open>content2\<close>, as file signatures and as the input of a target.
\<close>

theorem target_signature_contract_witness:
  "computeTargetSignature \<lparr>contents = [''a.c'' \<mapsto> ''content1''], creatable = (\<lambda>_. False)\<rparr> ''cc a.c'' [''a.c'']
     = sha256 (''cc a.c|'' @ sha256 ''content1'') \<and>
   computeTargetSignature \<lparr>contents = Map.empty, creatable = (\<lambda>_. False)\<rparr> ''cc a.c'' [''a.c'']
     = sha256 ''cc a.c|'' \<and>
   computeTargetSignature \<lparr>contents = [''a'' \<mapsto> ''x'', ''b'' \<mapsto> ''x''], creatable = (\<lambda>_. False)\<rparr> ''cc'' [''b'', ''a'']
     = computeTargetSignature \<lparr>contents = [''a'' \<mapsto> ''x'', ''b'' \<mapsto> ''x''], creatable = (\<lambda>_. False)\<rparr> ''cc'' [''a'', ''b''] \<and>
   computeTargetSignature \<lparr>contents = [''a.c'' \<mapsto> ''content1''], creatable = (\<lambda>_. False)\<rparr> ''gc a.c'' [''a.c'']
     \<noteq> computeTargetSignature \<lparr>contents = [''a.c'' \<mapsto> ''content1''], creatable = (\<lambda>_. False)\<rparr> ''cc a.c'' [''a.c''] \<and>
   computeFileSignature \<lparr>contents = [''a.c'' \<mapsto> ''content2''], creatable = (\<lambda>_. False)\<rparr> ''a.c''
     \<noteq> computeFileSignature \<lparr>contents = [''a.c'' \<mapsto> ''content1''], creatable = (\<lambda>_. False)\<rparr> ''a.c'' \<and>
   computeTargetSignature \<lparr>contents = [''a.c'' \<mapsto> ''content2''], creatable = (\<lambda>_. False)\<rparr> ''cc a.c'' [''a.c'']
     \<noteq> computeTargetSignature \<lparr>contents = [''a.c'' \<mapsto> ''content1''], creatable = (\<lambda>_. False)\<rparr> ''cc a.c'' [''a.c'']"
proof -
  let ?f1 = "\<lparr>contents = [''a.c'' \<mapsto> ''content1''], creatable = (\<lambda>_. False)\<rparr>"
  let ?f2 = "\<lparr>contents = [''a.c'' \<mapsto> ''content2''], creatable = (\<lambda>_. False)\<rparr>"
  let ?f0 = "\<lparr>contents = Map.empty, creatable = (\<lambda>_. False)\<rparr>"
  let ?fx = "\<lparr>contents = [''a'' \<mapsto> ''x'', ''b'' \<mapsto> ''x''], creatable = (\<lambda>_. False)\<rparr>"
  note shape = target_signature_contract[THEN conjunct1]
  note same = target_signature_contract[THEN conjunct2, THEN conjunct1, rule_format]
  note cmd_byte = target_signature_contract[THEN conjunct2, THEN conjunct2, THEN conjunct1, rule_format]
  note file_byte = target_signature_contract[THEN conjunct2, THEN conjunct2, THEN conjunct2, rule_format]
  have 1: "computeTargetSignature ?f1 ''cc a.c'' [''a.c''] = sha256 (''cc a.c|'' @ sha256 ''content1'')"
    by (simp add: shape computeFileSignature_def)
  have 2: "computeTargetSignature ?f0 ''cc a.c'' [''a.c''] = sha256 ''cc a.c|''"
    by (simp add: shape computeFileSignature_def)
  have 3: "computeTargetSignature ?fx ''cc'' [''b'', ''a''] = computeTargetSignature ?fx ''cc'' [''a'', ''b'']"
    by (rule same) (simp add: computeFileSignature_def)
  have 4: "computeTargetSignature ?f1 ''gc a.c'' [''a.c''] \<noteq> computeTargetSignature ?f1 ''cc a.c'' [''a.c'']"
    using cmd_byte[of 0 "''cc a.c''" "CHR ''g''" ?f1 "[''a.c'']"]
    by simp
  have 5: "computeFileSignature ?f2 ''a.c'' \<noteq> computeFileSignature ?f1 ''a.c''"
    using file_byte[of 7 "''content1''" "CHR ''2''" ?f0 "''a.c''"]
    by simp
  have s1: "sha256 ''content1'' = ''5968aac0f0910f393c6ef69ea54ff53a510e527f9b05688c1f83d9ab5be0cd19''"
    by (simp add: sha256_def hex8_def hexdigit_def rotl7_def drop_bit_eq_div push_bit_eq_mult)
  have s2: "sha256 ''content2'' = ''5968ab40f0910eb93c6ef69fa54ff53a510e527f9b05688c1f83d9ab5be0cd19''"
    by (simp add: sha256_def hex8_def hexdigit_def rotl7_def drop_bit_eq_div push_bit_eq_mult)
  have 6: "computeTargetSignature ?f2 ''cc a.c'' [''a.c''] \<noteq> computeTargetSignature ?f1 ''cc a.c'' [''a.c'']"
    unfolding 1
    by (simp add: shape computeFileSignature_def s1 s2 sha256_def hex8_def hexdigit_def rotl7_def
          drop_bit_eq_div push_bit_eq_mult)
  from 1 2 3 4 5 6 show ?thesis by blast
qed

text \<open>
  Claim C7 as stated fails by design where it speaks of reordering: the input paths enter
  the signature only through the contents of the files, so two inputs with equal
  contents can be swapped without changing it.
\<close>

theorem signature_sensitivity_counterexample:
  "[''a'', ''b''] \<noteq> [''b'', ''a''] \<and>
   computeTargetSignature \<lparr>contents = [''a'' \<mapsto> ''x'', ''b'' \<mapsto> ''x''], creatable = (\<lambda>_. False)\<rparr> ''cc'' [''a'', ''b'']
     = computeTargetSignature \<lparr>contents = [''a'' \<mapsto> ''x'', ''b'' \<mapsto> ''x''], creatable = (\<lambda>_. False)\<rparr> ''cc'' [''b'', ''a'']"
  by (simp add: computeTargetSignature_def computeFileSignature_def)

text \<open>
  The hash itself is not SHA-256, which \<open>signature.h\<close> documents: it mixes the data into
  three words only, and distinct strings collide. The contract above neither relies on
  this nor promises it.
\<close>

lemma sha256_collision:
  "''A@AAAH@AA'' \<noteq> ''@AAAA@HAA'' \<and> sha256 ''A@AAAH@AA'' = sha256 ''@AAAA@HAA''"
  by (simp add: sha256_def hex8_def hexdigit_def rotl7_def drop_bit_eq_div push_bit_eq_mult)

subsection \<open>Cache\<close>

lemma find_char_None: "find_char c xs = None \<longleftrightarrow> c \<notin> set xs"
  by (induction xs) auto

lemma find_char_Some:
  "find_char c xs = Some pos \<Longrightarrow>
   take pos xs = takeWhile (\<lambda>ch. ch \<noteq> c) xs \<and> drop (pos + 1) xs = tl (dropWhile (\<lambda>ch. ch \<noteq> c) xs)"
  by (induction xs arbitrary: pos) (auto split: if_splits)

lemma load_line_spec:
  "load_line sigs line = (case split_first_eq line of None \<Rightarrow> sigs | Some (k, v) \<Rightarrow> sigs(k \<mapsto> v))"
proof (cases "find_char CHR ''='' line")
  case None
  moreover from None have "CHR ''='' \<notin> set line" by (simp add: find_char_None)
  ultimately show ?thesis by (simp add: load_line_def split_first_eq_def)
next
  case (Some pos)
  then have "CHR ''='' \<in> set line" using find_char_None[of "CHR ''=''" line] by auto
  then show ?thesis using find_char_Some[OF Some] Some
    by (simp add: load_line_def split_first_eq_def)
qed

lemma foldl_load_line:
  "foldl load_line sigs ls = sigs ++ map_of (rev (List.map_filter split_first_eq ls))"
proof (induction ls arbitrary: sigs)
  case Nil
  then show ?case by (simp add:)
next
  case (Cons l ls)
  show ?case
  proof (cases "split_first_eq l")
    case None
    then have "load_line sigs l = sigs" by (simp add: load_line_spec)
    then show ?thesis using Cons[of sigs] None by (simp add:)
  next
    case (Some kv)
    obtain k v where kv: "kv = (k, v)" by (cases kv)
    have "load_line sigs l = sigs(k \<mapsto> v)" using Some kv by (simp add: load_line_spec)
    then have "foldl load_line sigs (l # ls) = foldl load_line (sigs(k \<mapsto> v)) ls"
      by simp
    also have "\<dots> = sigs(k \<mapsto> v) ++ map_of (rev (List.map_filter split_first_eq ls))"
      by (rule Cons)
    also have "\<dots> = sigs ++ map_of (rev (List.map_filter split_first_eq ls) @ [(k, v)])"
      by (simp add: map_add_upd_left fun_eq_iff map_add_def split: option.splits)
    finally show ?thesis using Some kv by (simp add:)
  qed
qed

text \<open>
  Claim C9. \<open>Cache::load\<close> on a cache file that cannot be opened returns false and leaves
  the cache as it was. On a readable file it returns true and replaces the map by the
  entries parsed from the lines of the file: each line is split at its first \<open>=\<close>, lines
  with no \<open>=\<close> are dropped, and of two lines with the same key the later one stands.
\<close>

theorem load_contract:
  "(contents fs (cacheFile c) = None \<longrightarrow> load fs c = (False, c)) \<and>
   (\<forall>text. contents fs (cacheFile c) = Some text \<longrightarrow>
      load fs c = (True, c\<lparr>signatures := map_of (rev (List.map_filter split_first_eq (getlines [] text)))\<rparr>))"
  by (simp add: load_def foldl_load_line)

lemma getlines_line:
  "newline \<notin> set l \<Longrightarrow> getlines acc (l @ newline # rest) = (acc @ l) # getlines [] rest"
  by (induction l arbitrary: acc) auto

lemma eq_not_newline: "CHR ''='' \<noteq> newline"
  by (simp add: newline_def)

lemma getlines_save:
  "\<forall>(n, s) \<in> set entries. newline \<notin> set n \<and> newline \<notin> set s \<Longrightarrow>
   getlines [] (concat (map (\<lambda>(targetName, signature). targetName @ ''='' @ signature @ [newline]) entries))
   = map (\<lambda>(targetName, signature). targetName @ ''='' @ signature) entries"
proof (induction entries)
  case Nil
  then show ?case by simp
next
  case (Cons e entries)
  obtain n s where e: "e = (n, s)" by (cases e)
  have nl: "newline \<notin> set (n @ ''='' @ s)" using Cons.prems e eq_not_newline by auto
  have "getlines [] ((n @ ''='' @ s) @ newline # concat (map (\<lambda>(targetName, signature). targetName @ ''='' @ signature @ [newline]) entries))
     = ([] @ (n @ ''='' @ s)) # getlines [] (concat (map (\<lambda>(targetName, signature). targetName @ ''='' @ signature @ [newline]) entries))"
    by (rule getlines_line[OF nl])
  then show ?case using Cons e by simp
qed

lemma split_at_first:
  "c \<notin> set n \<Longrightarrow>
   takeWhile (\<lambda>ch. ch \<noteq> c) (n @ c # s) = n \<and> dropWhile (\<lambda>ch. ch \<noteq> c) (n @ c # s) = c # s"
  by (induction n) auto

lemma split_first_eq_save:
  "CHR ''='' \<notin> set n \<Longrightarrow> split_first_eq (n @ CHR ''='' # s) = Some (n, s)"
  by (simp add: split_first_eq_def split_at_first)

lemma map_filter_save:
  "\<forall>(n, s) \<in> set entries. CHR ''='' \<notin> set n \<Longrightarrow>
   List.map_filter split_first_eq (map (\<lambda>(targetName, signature). targetName @ ''='' @ signature) entries) = entries"
  by (induction entries) (auto simp: split_first_eq_save)

lemma fold_set_paths:
  "cacheDir (fold (\<lambda>(n, s). setSignature n s) ops c) = cacheDir c \<and>
   cacheFile (fold (\<lambda>(n, s). setSignature n s) ops c) = cacheFile c"
  by (induction ops arbitrary: c) (auto simp: setSignature_def)

lemma map_of_rev_distinct: "distinct (map fst xs) \<Longrightarrow> map_of (rev xs) = map_of xs"
proof (induction xs)
  case Nil
  then show ?case by simp
next
  case (Cons e xs)
  obtain k v where e: "e = (k, v)" by (cases e)
  have k: "map_of xs k = None" using Cons.prems e by (simp add: map_of_eq_None_iff)
  have "map_of (rev (e # xs)) = map_of [(k, v)] ++ map_of xs"
    using Cons e by simp
  also have "\<dots> = (map_of xs)(k \<mapsto> v)"
    using k by (auto simp: fun_eq_iff map_add_def split: option.splits)
  finally show ?case using e by simp
qed

text \<open>
  Claim C8, as amended. Take any sequence of \<open>setSignature\<close> calls on a fresh cache, let
  \<open>entries\<close> be the resulting map in the order \<open>save\<close> iterates it, and suppose that no
  target name contains \<open>=\<close> or a newline, that no signature contains a newline, and that
  the cache file can be opened for writing. Then \<open>save\<close> succeeds, and \<open>load\<close> on a fresh
  cache of the same directory succeeds and yields the same cache.
\<close>

theorem cache_round_trip:
  assumes c: "c = fold (\<lambda>(n, s). setSignature n s) ops (Cache_ctor dir)"
    and d: "distinct (map fst entries)" and m: "map_of entries = signatures c"
    and wf: "\<forall>(n, s) \<in> set entries. CHR ''='' \<notin> set n \<and> newline \<notin> set n \<and> newline \<notin> set s"
    and w: "creatable fs (cacheFile c)"
  shows "fst (save entries fs c) \<and> load (snd (save entries fs c)) (Cache_ctor dir) = (True, c)"
proof -
  have p: "cacheDir c = dir" "cacheFile c = dir @ ''/cache.txt''"
    using fold_set_paths[of ops "Cache_ctor dir"] c by (simp_all add: Cache_ctor_def)
  have 1: "getlines [] (concat (map (\<lambda>(targetName, signature). targetName @ ''='' @ signature @ [newline]) entries))
        = map (\<lambda>(targetName, signature). targetName @ ''='' @ signature) entries"
    using wf by (intro getlines_save) auto
  have 2: "List.map_filter split_first_eq (map (\<lambda>(targetName, signature). targetName @ ''='' @ signature) entries) = entries"
    using wf map_filter_save[of entries] by auto
  have 3: "map_of (rev entries) = signatures c"
    using d m by (simp add: map_of_rev_distinct)
  have "foldl load_line Map.empty (getlines [] (concat (map (\<lambda>(targetName, signature). targetName @ ''='' @ signature @ [newline]) entries)))
       = signatures c"
    unfolding foldl_load_line 1 2 3 by simp
  then show ?thesis using w p
    by (simp add: save_def load_def Cache_ctor_def)
qed

theorem cache_round_trip_witness:
  "fst (save [(''lib'', ''s2''), (''app'', ''s3'')] \<lparr>contents = Map.empty, creatable = (\<lambda>_. True)\<rparr>
          (fold (\<lambda>(n, s). setSignature n s) [(''app'', ''s1''), (''lib'', ''s2''), (''app'', ''s3'')]
             (Cache_ctor ''.mimir''))) \<and>
   load (snd (save [(''lib'', ''s2''), (''app'', ''s3'')] \<lparr>contents = Map.empty, creatable = (\<lambda>_. True)\<rparr>
          (fold (\<lambda>(n, s). setSignature n s) [(''app'', ''s1''), (''lib'', ''s2''), (''app'', ''s3'')]
             (Cache_ctor ''.mimir''))))
     (Cache_ctor ''.mimir'')
   = (True, fold (\<lambda>(n, s). setSignature n s) [(''app'', ''s1''), (''lib'', ''s2''), (''app'', ''s3'')]
             (Cache_ctor ''.mimir''))"
proof (rule cache_round_trip[OF refl])
  show "distinct (map fst [(''lib'', ''s2''), (''app'', ''s3'')])" by simp
  show "map_of [(''lib'', ''s2''), (''app'', ''s3'')]
      = signatures (fold (\<lambda>(n, s). setSignature n s) [(''app'', ''s1''), (''lib'', ''s2''), (''app'', ''s3'')]
             (Cache_ctor ''.mimir''))"
    by (simp add: setSignature_def Cache_ctor_def fun_eq_iff)
  show "\<forall>(n, s) \<in> set [(''lib'', ''s2''), (''app'', ''s3'')].
          CHR ''='' \<notin> set n \<and> newline \<notin> set n \<and> newline \<notin> set s"
    by (simp add: newline_def)
  show "creatable \<lparr>contents = Map.empty, creatable = (\<lambda>_. True)\<rparr>
          (cacheFile (fold (\<lambda>(n, s). setSignature n s) [(''app'', ''s1''), (''lib'', ''s2''), (''app'', ''s3'')]
             (Cache_ctor ''.mimir'')))"
    by simp
qed

text \<open>
  Claim C8 as stated fails for a target name that contains \<open>=\<close>: the entry
  \<open>a=b \<mapsto> c\<close> is saved as the line \<open>a=b=c\<close> and loaded as \<open>a \<mapsto> b=c\<close>.
\<close>

theorem cache_round_trip_counterexample:
  "fst (save [(''a=b'', ''c'')] \<lparr>contents = Map.empty, creatable = (\<lambda>_. True)\<rparr>
          (fold (\<lambda>(n, s). setSignature n s) [(''a=b'', ''c'')] (Cache_ctor ''.mimir''))) \<and>
   signatures (snd (load (snd (save [(''a=b'', ''c'')] \<lparr>contents = Map.empty, creatable = (\<lambda>_. True)\<rparr>
          (fold (\<lambda>(n, s). setSignature n s) [(''a=b'', ''c'')] (Cache_ctor ''.mimir''))))
        (Cache_ctor ''.mimir'')))
   \<noteq> signatures (fold (\<lambda>(n, s). setSignature n s) [(''a=b'', ''c'')] (Cache_ctor ''.mimir''))"
proof -
  have "signatures (snd (load (snd (save [(''a=b'', ''c'')] \<lparr>contents = Map.empty, creatable = (\<lambda>_. True)\<rparr>
          (fold (\<lambda>(n, s). setSignature n s) [(''a=b'', ''c'')] (Cache_ctor ''.mimir''))))
        (Cache_ctor ''.mimir''))) ''a'' = Some ''b=c''"
    by (simp add: save_def load_def Cache_ctor_def setSignature_def load_line_def newline_def)
  moreover have "signatures (fold (\<lambda>(n, s). setSignature n s) [(''a=b'', ''c'')] (Cache_ctor ''.mimir'')) ''a'' = None"
    by (simp add: Cache_ctor_def setSignature_def)
  ultimately show ?thesis
    by (auto simp: save_def Cache_ctor_def setSignature_def)
qed

theorem load_contract_witness:
  "load \<lparr>contents = [''.mimir/cache.txt'' \<mapsto> ''app=s1'' @ [newline] @ ''junk'' @ [newline] @ ''lib=x=y''],
          creatable = (\<lambda>_. True)\<rparr>
     (setSignature ''old'' ''s0'' (Cache_ctor ''.mimir''))
   = (True, (Cache_ctor ''.mimir'')\<lparr>signatures := [''app'' \<mapsto> ''s1'', ''lib'' \<mapsto> ''x=y'']\<rparr>) \<and>
   load \<lparr>contents = Map.empty, creatable = (\<lambda>_. True)\<rparr> (setSignature ''old'' ''s0'' (Cache_ctor ''.mimir''))
   = (False, setSignature ''old'' ''s0'' (Cache_ctor ''.mimir''))"
  using load_contract[of "\<lparr>contents = [''.mimir/cache.txt'' \<mapsto> ''app=s1'' @ [newline] @ ''junk'' @ [newline] @ ''lib=x=y''],
          creatable = (\<lambda>_. True)\<rparr>" "setSignature ''old'' ''s0'' (Cache_ctor ''.mimir'')"]
    load_contract[of "\<lparr>contents = Map.empty, creatable = (\<lambda>_. True)\<rparr>" "setSignature ''old'' ''s0'' (Cache_ctor ''.mimir'')"]
  by (simp add: Cache_ctor_def setSignature_def newline_def split_first_eq_def fun_eq_iff)


subsection \<open>Topological order\<close>

lemma reduceDependent_simps:
  "reduceDependent cur (m, t) (deg, q) =
     (if cur \<in> set (getDependencies t)
      then (deg(m \<mapsto> counter deg m - 1), q @ (if counter deg m = 1 then [m] else []))
      else (deg, q))"
  by (simp add: reduceDependent_def Let_def counter_def)

lemma fold_reduce_char:
  assumes "distinct (map fst es)" and "fold (reduceDependent cur) es (deg, q) = (deg', q')"
  shows "q' = q @ map fst (filter (\<lambda>(n, t). cur \<in> set (getDependencies t) \<and> counter deg n = 1) es) \<and>
     (\<forall>n. counter deg' n = counter deg n -
            (if \<exists>t. (n, t) \<in> set es \<and> cur \<in> set (getDependencies t) then 1 else 0))"
  using assms
proof (induction es arbitrary: deg q)
  case Nil
  then show ?case by simp
next
  case (Cons e es)
  obtain m t where e: "e = (m, t)" by (cases e)
  obtain d1 q1 where s1: "reduceDependent cur (m, t) (deg, q) = (d1, q1)"
    by (cases "reduceDependent cur (m, t) (deg, q)")
  have m: "m \<notin> fst ` set es" and des: "distinct (map fst es)" using Cons.prems(1) e by auto
  have f: "fold (reduceDependent cur) es (d1, q1) = (deg', q')" using Cons.prems(2) e s1 by simp
  note ih = Cons.IH[OF des f]
  have d1: "counter d1 n = counter deg n - (if n = m \<and> cur \<in> set (getDependencies t) then 1 else 0)" for n
    using s1 by (auto simp: reduceDependent_simps counter_def split: if_splits)
  have q1: "q1 = q @ (if cur \<in> set (getDependencies t) \<and> counter deg m = 1 then [m] else [])"
    using s1 by (auto simp: reduceDependent_simps split: if_splits)
  have same: "counter d1 n = counter deg n" if "n \<in> fst ` set es" for n
    using d1[of n] that m by auto
  have filt: "filter (\<lambda>(n, t). cur \<in> set (getDependencies t) \<and> counter d1 n = 1) es
            = filter (\<lambda>(n, t). cur \<in> set (getDependencies t) \<and> counter deg n = 1) es"
    by (rule filter_cong[OF refl]) (use same in force)
  have A: "q' = q @ map fst (filter (\<lambda>(n, t). cur \<in> set (getDependencies t) \<and> counter deg n = 1) (e # es))"
    using ih filt q1 e by simp
  have B: "counter deg' n = counter deg n -
            (if \<exists>t. (n, t) \<in> set (e # es) \<and> cur \<in> set (getDependencies t) then 1 else 0)" for n
  proof (cases "n = m")
    case True
    then have "\<not> (\<exists>t. (n, t) \<in> set es \<and> cur \<in> set (getDependencies t))" using m by force
    then have "counter deg' n = counter d1 n" using ih by simp
    then show ?thesis using d1[of n] True e m by force
  next
    case False
    then show ?thesis using ih d1[of n] e by auto
  qed
  from A B show ?case by blast
qed

lemma in_dag_deps:
  "distinct (map fst dag) \<Longrightarrow> (n, t) \<in> set dag \<Longrightarrow> dependenciesOf dag n = getDependencies t"
  by (simp add: dependenciesOf_def)

lemma deps_outside: "n \<notin> fst ` set dag \<Longrightarrow> dependenciesOf dag n = []"
  using map_of_eq_None_iff[of dag n] by (simp add: dependenciesOf_def)

lemma cur_in_deps:
  "distinct (map fst dag) \<Longrightarrow>
   (\<exists>t. (n, t) \<in> set dag \<and> cur \<in> set (getDependencies t)) \<longleftrightarrow> cur \<in> set (dependenciesOf dag n)"
  by (auto simp: dependenciesOf_def split: option.splits dest: map_of_SomeD)

lemma remaining_zero_iff:
  "int (length ds) - int (card (set ds \<inter> P)) = 0 \<longleftrightarrow> distinct ds \<and> set ds \<subseteq> P"
proof
  assume "int (length ds) - int (card (set ds \<inter> P)) = 0"
  then have e: "card (set ds \<inter> P) = length ds" by simp
  have 1: "card (set ds \<inter> P) \<le> card (set ds)" by (simp add: card_mono)
  have 2: "card (set ds) \<le> length ds" by (rule card_length)
  from e 1 2 have c: "card (set ds) = length ds" and i: "card (set ds \<inter> P) = card (set ds)" by auto
  have "set ds \<inter> P = set ds" by (rule card_subset_eq) (use i in auto)
  then show "distinct ds \<and> set ds \<subseteq> P" using c card_distinct by blast
next
  assume a: "distinct ds \<and> set ds \<subseteq> P"
  then have "set ds \<inter> P = set ds" by auto
  then show "int (length ds) - int (card (set ds \<inter> P)) = 0"
    using a by (simp add: distinct_card)
qed

lemma card_inter_insert:
  "finite S \<Longrightarrow> c \<notin> P \<Longrightarrow> card (S \<inter> insert c P) = card (S \<inter> P) + (if c \<in> S then 1 else 0)"
proof -
  assume f: "finite S" and c: "c \<notin> P"
  show ?thesis
  proof (cases "c \<in> S")
    case True
    then have "S \<inter> insert c P = insert c (S \<inter> P)" by auto
    moreover have "c \<notin> S \<inter> P" using c by simp
    moreover have "finite (S \<inter> P)" using f by simp
    ultimately show ?thesis using True by simp
  next
    case False
    then have "S \<inter> insert c P = S \<inter> P" by auto
    then show ?thesis using False by simp
  qed
qed

lemma kahn_inv_step:
  assumes dk: "distinct (map fst dag)" and inv: "kahn_inv dag deg queue idx" and lt: "idx < length queue"
    and f: "fold (reduceDependent (queue ! idx)) dag (deg, queue) = (deg', queue')"
  shows "kahn_inv dag deg' queue' (Suc idx)"
proof -
  let ?cur = "queue ! idx"
  let ?D = "dependenciesOf dag"
  let ?N = "fst ` set dag"
  let ?new = "map fst (filter (\<lambda>(n, t). ?cur \<in> set (getDependencies t) \<and> counter deg n = 1) dag)"
  let ?P = "set (take idx queue)"
  from fold_reduce_char[OF dk f] have q': "queue' = queue @ ?new"
    and d0: "\<And>n. counter deg' n = counter deg n -
            (if \<exists>t. (n, t) \<in> set dag \<and> ?cur \<in> set (getDependencies t) then 1 else 0)" by auto
  have d': "counter deg' n = counter deg n - (if ?cur \<in> set (?D n) then 1 else 0)" for n
    using d0[of n] cur_in_deps[OF dk, of n ?cur] by simp
  from inv have dq: "distinct queue" and sq: "set queue \<subseteq> ?N"
    and cnt: "\<And>n. n \<in> ?N \<Longrightarrow> counter deg n = int (length (?D n)) - int (card (set (?D n) \<inter> ?P))"
    and mem: "\<And>n. n \<in> ?N \<Longrightarrow> n \<in> set queue \<longleftrightarrow> counter deg n = 0"
    and ord: "\<And>j. j < length queue \<Longrightarrow> set (?D (queue ! j)) \<subseteq> set (take j queue)"
    by (auto simp: kahn_inv_def)
  have curP: "?cur \<notin> ?P" using dq lt by (metis distinct_take id_take_nth_drop not_distinct_conv_prefix append.assoc append_Cons)
  have tk: "take (Suc idx) queue' = take idx queue @ [?cur]"
    using lt q' by (simp add: take_Suc_conv_app_nth)
  have P': "set (take (Suc idx) queue') = insert ?cur ?P" using tk by simp
  have newmem: "n \<in> set ?new \<longleftrightarrow> n \<in> ?N \<and> ?cur \<in> set (?D n) \<and> counter deg n = 1" for n
  proof -
    have "n \<in> set ?new \<longleftrightarrow> (\<exists>t. (n, t) \<in> set dag \<and> ?cur \<in> set (getDependencies t) \<and> counter deg n = 1)"
      by force
    also have "\<dots> \<longleftrightarrow> n \<in> ?N \<and> ?cur \<in> set (?D n) \<and> counter deg n = 1"
      using cur_in_deps[OF dk, of n ?cur] by force
    finally show ?thesis .
  qed
  have cnt': "counter deg' n = int (length (?D n)) - int (card (set (?D n) \<inter> set (take (Suc idx) queue')))"
    if "n \<in> ?N" for n
    unfolding P' using cnt[OF that] d'[of n] card_inter_insert[OF finite_set curP, of "?D n"] by simp
  have zero_sub: "counter deg n = 0 \<Longrightarrow> ?cur \<notin> set (?D n)" if "n \<in> ?N" for n
    using cnt[OF that] remaining_zero_iff[of "?D n" ?P] curP by auto
  have dnew: "distinct ?new"
    using dk by (simp add: distinct_map_filter)
  have disj: "set queue \<inter> set ?new = {}"
  proof -
    have "n \<in> set queue \<Longrightarrow> n \<in> set ?new \<Longrightarrow> False" for n
      using newmem[of n] mem[of n] by auto
    then show ?thesis by blast
  qed
  have 1: "Suc idx \<le> length queue'" using lt q' by simp
  have 2: "distinct queue'" using dq dnew disj q' by simp
  have 3: "set queue' \<subseteq> ?N" using sq q' newmem by auto
  have 5: "n \<in> set queue' \<longleftrightarrow> counter deg' n = 0" if "n \<in> ?N" for n
  proof -
    have "n \<in> set queue' \<longleftrightarrow> counter deg n = 0 \<or> (?cur \<in> set (?D n) \<and> counter deg n = 1)"
      using q' newmem[of n] mem[OF that] that by auto
    also have "\<dots> \<longleftrightarrow> counter deg' n = 0"
      using d'[of n] zero_sub[OF that] by auto
    finally show ?thesis .
  qed
  have 6: "set (?D (queue' ! j)) \<subseteq> set (take j queue')" if j: "j < length queue'" for j
  proof (cases "j < length queue")
    case True
    then show ?thesis using ord[OF True] q' by (simp add: nth_append)
  next
    case False
    have "queue' ! j = ?new ! (j - length queue)" using False q' by (simp add: nth_append)
    moreover have "j - length queue < length ?new" using False j q' by simp
    ultimately have "queue' ! j \<in> set ?new" using nth_mem by metis
    then have n: "queue' ! j \<in> ?N" and z: "counter deg' (queue' ! j) = 0"
      using newmem[of "queue' ! j"] d'[of "queue' ! j"] by auto
    from cnt'[OF n] z have "set (?D (queue' ! j)) \<subseteq> set (take (Suc idx) queue')"
      using remaining_zero_iff[of "?D (queue' ! j)" "set (take (Suc idx) queue')"] by simp
    moreover have "set (take (Suc idx) queue') \<subseteq> set (take j queue')"
      using False lt by (intro set_take_subset_set_take) simp
    ultimately show ?thesis by blast
  qed
  show ?thesis unfolding kahn_inv_def using 1 2 3 cnt' 5 6 by blast
qed

lemma counter_init_step:
  "counter (if m a = None then m(a \<mapsto> 0) else m) n = counter m n"
  by (auto simp: counter_def split: option.splits)

lemma counter_initInDegree_gen:
  "counter (fold (\<lambda>(name, target) inDegree.
             if inDegree name = None then inDegree(name \<mapsto> 0) else inDegree) es m) n = counter m n"
proof (induction es arbitrary: m)
  case Nil
  then show ?case by simp
next
  case (Cons e es)
  obtain a t where e: "e = (a, t)" by (cases e)
  show ?case unfolding e fold_Cons comp_apply prod.case Cons.IH by (rule counter_init_step)
qed

lemma counter_bump:
  "counter (fold (\<lambda>dep inDegree. inDegree(name \<mapsto> counter inDegree name + 1)) ds m) n
   = counter m n + (if n = name then int (length ds) else 0)"
  by (induction ds arbitrary: m) (auto simp: counter_def)

lemma counter_countInDegree_gen:
  "distinct (map fst es) \<Longrightarrow>
   counter (fold (\<lambda>(name, target) inDegree.
             fold (\<lambda>dep inDegree. inDegree(name \<mapsto> counter inDegree name + 1))
                  (getDependencies target) inDegree) es m) n
   = counter m n + int (length (dependenciesOf es n))"
proof (induction es arbitrary: m)
  case Nil
  then show ?case by (simp add: dependenciesOf_def)
next
  case (Cons e es)
  obtain k t where e: "e = (k, t)" by (cases e)
  have k: "map_of es k = None" using Cons.prems e by (simp add: map_of_eq_None_iff)
  have d: "distinct (map fst es)" using Cons.prems by simp
  have "dependenciesOf (e # es) n = (if n = k then getDependencies t else dependenciesOf es n)"
    using e by (simp add: dependenciesOf_def)
  moreover have "dependenciesOf es k = []" using k by (simp add: dependenciesOf_def)
  ultimately have l: "int (length (dependenciesOf (e # es) n))
      = (if n = k then int (length (getDependencies t)) else 0) + int (length (dependenciesOf es n))"
    by simp
  show ?case unfolding e fold_Cons comp_apply prod.case Cons.IH[OF d] counter_bump
    using l e by simp
qed

lemma counter_start:
  "distinct (map fst dag) \<Longrightarrow>
   counter (countInDegree dag (initInDegree dag)) n = int (length (dependenciesOf dag n))"
proof -
  assume d: "distinct (map fst dag)"
  show ?thesis
    unfolding countInDegree_def initInDegree_def counter_countInDegree_gen[OF d] counter_initInDegree_gen
    by (simp add: counter_def)
qed

lemma kahn_inv_start:
  assumes dk: "distinct (map fst dag)" and dord: "distinct ord" and sord: "set ord = fst ` set dag"
  shows "kahn_inv dag (countInDegree dag (initInDegree dag))
           (filter (\<lambda>name. counter (countInDegree dag (initInDegree dag)) name = 0) ord) 0"
proof -
  let ?deg = "countInDegree dag (initInDegree dag)"
  let ?q = "filter (\<lambda>name. counter ?deg name = 0) ord"
  have c: "counter ?deg n = int (length (dependenciesOf dag n))" for n
    by (rule counter_start[OF dk])
  have 6: "set (dependenciesOf dag (?q ! j)) \<subseteq> set (take j ?q)" if "j < length ?q" for j
  proof -
    have "?q ! j \<in> set ?q" using that by (rule nth_mem)
    then have "counter ?deg (?q ! j) = 0" by simp
    then show ?thesis using c[of "?q ! j"] by simp
  qed
  show ?thesis unfolding kahn_inv_def using dord sord c 6 by auto
qed

lemma processQueue_inv:
  "distinct (map fst dag) \<Longrightarrow> kahn_inv dag deg queue idx \<Longrightarrow> result = take idx queue \<Longrightarrow>
   \<exists>deg'. kahn_inv dag deg' (processQueue dag deg queue idx result)
              (length (processQueue dag deg queue idx result))"
proof (induction dag deg queue idx result rule: processQueue.induct)
  case (1 dag inDegree queue idx result)
  show ?case
  proof (cases "idx < length queue")
    case True
    obtain deg' queue' where f: "fold (reduceDependent (queue ! idx)) dag (inDegree, queue) = (deg', queue')"
      by (cases "fold (reduceDependent (queue ! idx)) dag (inDegree, queue)")
    have inv': "kahn_inv dag deg' queue' (Suc idx)"
      by (rule kahn_inv_step[OF "1.prems"(1) "1.prems"(2) True f])
    have q': "queue' = queue @ map fst (filter (\<lambda>(n, t). queue ! idx \<in> set (getDependencies t) \<and> counter inDegree n = 1) dag)"
      using fold_reduce_char[OF "1.prems"(1) f] by simp
    have r: "result @ [queue ! idx] = take (Suc idx) queue'"
      using True q' "1.prems"(3) by (simp add: take_Suc_conv_app_nth)
    have "\<exists>d. kahn_inv dag d (processQueue dag deg' queue' (Suc idx) (result @ [queue ! idx]))
              (length (processQueue dag deg' queue' (Suc idx) (result @ [queue ! idx])))"
      by (rule "1.IH"[OF True refl f[symmetric] "1.prems"(1) inv' r])
    moreover have "processQueue dag inDegree queue idx result
        = processQueue dag deg' queue' (Suc idx) (result @ [queue ! idx])"
      using True f by (subst processQueue.simps) simp
    ultimately show ?thesis by simp
  next
    case False
    then have i: "idx = length queue" using "1.prems"(2) by (simp add: kahn_inv_def)
    have "processQueue dag inDegree queue idx result = queue"
      using False i "1.prems"(3) by (subst processQueue.simps) simp
    then show ?thesis using "1.prems"(2) i by auto
  qed
qed

lemma topologicalSort_inv:
  assumes "distinct (map fst dag)" and "distinct ord" and "set ord = fst ` set dag"
  shows "\<exists>deg. kahn_inv dag deg (topologicalSort ord dag) (length (topologicalSort ord dag))"
  unfolding topologicalSort_def Let_def
  by (rule processQueue_inv[OF assms(1) kahn_inv_start[OF assms]]) simp

text \<open>What the returned order always satisfies, cyclic graph or not.\<close>

lemma topologicalSort_sound:
  assumes "distinct (map fst dag)" and "distinct ord" and "set ord = fst ` set dag"
  shows "distinct (topologicalSort ord dag)"
    and "set (topologicalSort ord dag) \<subseteq> fst ` set dag"
    and "n \<in> fst ` set dag \<Longrightarrow> n \<in> set (topologicalSort ord dag) \<longleftrightarrow>
           distinct (dependenciesOf dag n) \<and> set (dependenciesOf dag n) \<subseteq> set (topologicalSort ord dag)"
    and "j < length (topologicalSort ord dag) \<Longrightarrow>
           set (dependenciesOf dag (topologicalSort ord dag ! j)) \<subseteq> set (take j (topologicalSort ord dag))"
proof -
  obtain deg where inv: "kahn_inv dag deg (topologicalSort ord dag) (length (topologicalSort ord dag))"
    using topologicalSort_inv[OF assms] by blast
  show "distinct (topologicalSort ord dag)" "set (topologicalSort ord dag) \<subseteq> fst ` set dag"
    using inv by (auto simp: kahn_inv_def)
  show "j < length (topologicalSort ord dag) \<Longrightarrow>
           set (dependenciesOf dag (topologicalSort ord dag ! j)) \<subseteq> set (take j (topologicalSort ord dag))"
    using inv by (simp add: kahn_inv_def)
  show "n \<in> set (topologicalSort ord dag) \<longleftrightarrow>
           distinct (dependenciesOf dag n) \<and> set (dependenciesOf dag n) \<subseteq> set (topologicalSort ord dag)"
    if n: "n \<in> fst ` set dag"
  proof -
    have "n \<in> set (topologicalSort ord dag) \<longleftrightarrow> counter deg n = 0"
      using inv n unfolding kahn_inv_def by blast
    moreover have "counter deg n = int (length (dependenciesOf dag n))
        - int (card (set (dependenciesOf dag n) \<inter> set (topologicalSort ord dag)))"
      using inv n unfolding kahn_inv_def by auto
    ultimately show ?thesis using remaining_zero_iff[of "dependenciesOf dag n" "set (topologicalSort ord dag)"]
      by simp
  qed
qed

lemma edges_finite: "finite (edges dag)"
proof -
  have "edges dag \<subseteq> (\<Union>n \<in> fst ` set dag. {n} \<times> set (dependenciesOf dag n))"
    using deps_outside[of _ dag] by (fastforce simp: edges_def)
  moreover have "finite (\<Union>n \<in> fst ` set dag. {n} \<times> set (dependenciesOf dag n))" by simp
  ultimately show ?thesis by (rule finite_subset)
qed

lemma topologicalSort_complete:
  assumes dk: "distinct (map fst dag)" and dord: "distinct ord" and sord: "set ord = fst ` set dag"
    and ac: "acyclic (edges dag)"
    and ok: "\<forall>n \<in> fst ` set dag. distinct (dependenciesOf dag n) \<and> set (dependenciesOf dag n) \<subseteq> fst ` set dag"
  shows "set (topologicalSort ord dag) = fst ` set dag"
proof (rule ccontr)
  let ?R = "topologicalSort ord dag"
  assume ne: "set ?R \<noteq> fst ` set dag"
  have sub: "set ?R \<subseteq> fst ` set dag" by (rule topologicalSort_sound(2)[OF dk dord sord])
  with ne obtain x where x: "x \<in> fst ` set dag - set ?R" by blast
  have "wf ((edges dag)\<inverse>)"
    using edges_finite ac by (simp add: finite_acyclic_wf)
  then obtain z where z: "z \<in> fst ` set dag - set ?R"
    and m: "\<And>y. (y, z) \<in> (edges dag)\<inverse> \<Longrightarrow> y \<notin> fst ` set dag - set ?R"
    using x by (rule wfE_min) blast
  have "set (dependenciesOf dag z) \<subseteq> set ?R"
  proof
    fix y assume y: "y \<in> set (dependenciesOf dag z)"
    then have "(y, z) \<in> (edges dag)\<inverse>" by (simp add: edges_def)
    from m[OF this] have "y \<notin> fst ` set dag - set ?R" .
    moreover have "y \<in> fst ` set dag" using ok z y by blast
    ultimately show "y \<in> set ?R" by simp
  qed
  moreover have "distinct (dependenciesOf dag z)" using ok z by blast
  ultimately have "z \<in> set ?R"
    using topologicalSort_sound(3)[OF dk dord sord, of z] z by simp
  then show False using z by simp
qed

lemma takeWhile_upto_nth:
  "distinct xs \<Longrightarrow> j < length xs \<Longrightarrow> takeWhile (\<lambda>x. x \<noteq> xs ! j) xs = take j xs"
  by (rule takeWhile_eq_take_P_nth) (auto simp: nth_eq_iff_index_eq)

lemma topologicalSort_before:
  assumes dk: "distinct (map fst dag)" and dord: "distinct ord" and sord: "set ord = fst ` set dag"
    and n: "n \<in> set (topologicalSort ord dag)" and d: "d \<in> set (dependenciesOf dag n)"
  shows "appears_before (topologicalSort ord dag) d n"
proof -
  let ?R = "topologicalSort ord dag"
  from n obtain j where j: "j < length ?R" "?R ! j = n" by (auto simp: in_set_conv_nth)
  have "set (dependenciesOf dag (?R ! j)) \<subseteq> set (take j ?R)"
    by (rule topologicalSort_sound(4)[OF dk dord sord j(1)])
  then have "d \<in> set (take j ?R)" using d j(2) by auto
  moreover have "takeWhile (\<lambda>x. x \<noteq> n) ?R = take j ?R"
    using takeWhile_upto_nth[OF topologicalSort_sound(1)[OF dk dord sord] j(1)] j(2) by simp
  ultimately show ?thesis using n by (simp add: appears_before_def)
qed

text \<open>
  Claim C1, as amended. For every graph with distinct keys whose induced graph has no
  directed cycle, in which every declared dependency is a registered target and no
  dependency list names a target twice, \<open>topologicalSort\<close> returns a permutation of all
  target names in which every target appears after each of its declared dependencies,
  whatever the iteration orders of the two hash maps.
\<close>

theorem topologicalSort_correct:
  assumes "distinct (map fst dag)" and "distinct ord" and "set ord = fst ` set dag"
    and "acyclic (edges dag)"
    and "\<forall>(n, t) \<in> set dag. distinct (getDependencies t) \<and> set (getDependencies t) \<subseteq> fst ` set dag"
  shows "mset (topologicalSort ord dag) = mset (map fst dag) \<and>
         (\<forall>(n, t) \<in> set dag. \<forall>d \<in> set (getDependencies t). appears_before (topologicalSort ord dag) d n)"
proof -
  have ok: "\<forall>n \<in> fst ` set dag. distinct (dependenciesOf dag n) \<and> set (dependenciesOf dag n) \<subseteq> fst ` set dag"
    using assms(5) in_dag_deps[OF assms(1)] by fastforce
  have s: "set (topologicalSort ord dag) = fst ` set dag"
    by (rule topologicalSort_complete[OF assms(1-4) ok])
  have "set (topologicalSort ord dag) = set (map fst dag)" using s by simp
  then have "mset (topologicalSort ord dag) = mset (map fst dag)"
    using topologicalSort_sound(1)[OF assms(1-3)] assms(1)
    by (simp only: set_eq_iff_mset_eq_distinct)
  moreover have "appears_before (topologicalSort ord dag) d n"
    if "(n, t) \<in> set dag" "d \<in> set (getDependencies t)" for n t d
  proof -
    have "n \<in> set (topologicalSort ord dag)" using s that(1) by force
    moreover have "d \<in> set (dependenciesOf dag n)" using in_dag_deps[OF assms(1) that(1)] that(2) by simp
    ultimately show ?thesis by (rule topologicalSort_before[OF assms(1-3)])
  qed
  ultimately show ?thesis by blast
qed

lemma edges_single: "edges [(a, t)] = {a} \<times> set (getDependencies t)"
  by (auto simp: edges_def dependenciesOf_def split: if_splits)


theorem topologicalSort_correct_witness:
  "topologicalSort [''app'', ''lib'', ''test'']
     [(''test'', tgt ''test'' [''app'', ''lib'']), (''lib'', tgt ''lib'' []), (''app'', tgt ''app'' [''lib''])]
   = [''lib'', ''app'', ''test''] \<and>
   mset (topologicalSort [''app'', ''lib'', ''test'']
     [(''test'', tgt ''test'' [''app'', ''lib'']), (''lib'', tgt ''lib'' []), (''app'', tgt ''app'' [''lib''])])
   = mset [''test'', ''lib'', ''app''] \<and>
   appears_before (topologicalSort [''app'', ''lib'', ''test'']
     [(''test'', tgt ''test'' [''app'', ''lib'']), (''lib'', tgt ''lib'' []), (''app'', tgt ''app'' [''lib''])])
     ''lib'' ''app''"
proof -
  let ?dag = "[(''test'', tgt ''test'' [''app'', ''lib'']), (''lib'', tgt ''lib'' []), (''app'', tgt ''app'' [''lib''])]"
  let ?ord = "[''app'', ''lib'', ''test'']"
  have 1: "distinct (map fst ?dag)" by simp
  have 2: "distinct ?ord" by simp
  have 3: "set ?ord = fst ` set ?dag" by auto
  have 4: "acyclic (edges ?dag)"
  proof (rule acyclicI_order)
    fix a b assume "(a, b) \<in> edges ?dag"
    then show "length (dependenciesOf ?dag b) < length (dependenciesOf ?dag a)"
      by (auto simp: edges_def dependenciesOf_def tgt_def split: if_splits)
  qed
  have 5: "\<forall>(n, t) \<in> set ?dag. distinct (getDependencies t) \<and> set (getDependencies t) \<subseteq> fst ` set ?dag"
    by (simp add: tgt_def)
  have e: "topologicalSort ?ord ?dag = [''lib'', ''app'', ''test'']"
    by (simp add: topologicalSort_def countInDegree_def initInDegree_def counter_def tgt_def
          processQueue.simps reduceDependent_def Let_def)
  from topologicalSort_correct[OF 1 2 3 4 5] e show ?thesis by (simp add: tgt_def)
qed

text \<open>
  Claim C1 as stated fails. A target that depends on an unregistered name is never
  queued, and neither is a target whose dependency list names a dependency twice (the
  counter counts entries, the loop decrements once per processed name); both graphs are
  acyclic.
\<close>

theorem topologicalSort_counterexample:
  "acyclic (edges [(''A'', tgt ''A'' [''ghost''])]) \<and>
   topologicalSort [''A''] [(''A'', tgt ''A'' [''ghost''])] = [] \<and>
   acyclic (edges [(''A'', tgt ''A'' []), (''B'', tgt ''B'' [''A'', ''A''])]) \<and>
   topologicalSort [''A'', ''B''] [(''A'', tgt ''A'' []), (''B'', tgt ''B'' [''A'', ''A''])] = [''A'']"
proof -
  have 1: "acyclic (edges [(''A'', tgt ''A'' [''ghost''])])"
    by (rule acyclicI_order[where f = "\<lambda>n. if n = ''A'' then 1 else (0::nat)"])
       (auto simp: edges_single tgt_def)
  have 2: "topologicalSort [''A''] [(''A'', tgt ''A'' [''ghost''])] = []"
    by (simp add: topologicalSort_def countInDegree_def initInDegree_def counter_def tgt_def
          processQueue.simps reduceDependent_def Let_def)
  have 3: "acyclic (edges [(''A'', tgt ''A'' []), (''B'', tgt ''B'' [''A'', ''A''])])"
    by (rule acyclicI_order[where f = "\<lambda>n. if n = ''B'' then 1 else (0::nat)"])
       (auto simp: edges_def dependenciesOf_def tgt_def split: if_splits)
  have 4: "topologicalSort [''A'', ''B''] [(''A'', tgt ''A'' []), (''B'', tgt ''B'' [''A'', ''A''])] = [''A'']"
    by (simp add: topologicalSort_def countInDegree_def initInDegree_def counter_def tgt_def
          processQueue.simps reduceDependent_def Let_def)
  from 1 2 3 4 show ?thesis by blast
qed

subsection \<open>Cycle detection\<close>

lemma dfs_invD:
  assumes "dfs_inv dag st"
  shows "successively (\<lambda>a b. b \<in> set (dependenciesOf dag a)) (recStack st)"
    and "\<And>n. visited st n = 1 \<longleftrightarrow> n \<in> set (recStack st)"
    and "\<And>n. visited st n = 0 \<or> visited st n = 1 \<or> visited st n = 2"
    and "\<And>n m. visited st n = 2 \<Longrightarrow> m \<in> set (dependenciesOf dag n) \<Longrightarrow> visited st m = 2"
    and "\<And>n. visited st n = 2 \<Longrightarrow> (n, n) \<notin> (edges dag)\<^sup>+"
  using assms unfolding dfs_inv_def by blast+

lemma dfs_invI:
  assumes "successively (\<lambda>a b. b \<in> set (dependenciesOf dag a)) (recStack st)"
    and "\<And>n. visited st n = 1 \<longleftrightarrow> n \<in> set (recStack st)"
    and "\<And>n. visited st n = 0 \<or> visited st n = 1 \<or> visited st n = 2"
    and "\<And>n m. visited st n = 2 \<Longrightarrow> m \<in> set (dependenciesOf dag n) \<Longrightarrow> visited st m = 2"
    and "\<And>n. visited st n = 2 \<Longrightarrow> (n, n) \<notin> (edges dag)\<^sup>+"
  shows "dfs_inv dag st"
  unfolding dfs_inv_def using assms by blast

lemma dfs_push:
  assumes "dfs_inv dag st" and "visited st node = 0"
    and "recStack st \<noteq> [] \<longrightarrow> node \<in> set (dependenciesOf dag (last (recStack st)))"
  shows "dfs_inv dag (st\<lparr>visited := (visited st)(node := 1), recStack := recStack st @ [node]\<rparr>)"
proof (rule dfs_invI)
  note d = dfs_invD[OF assms(1)]
  let ?st = "st\<lparr>visited := (visited st)(node := 1), recStack := recStack st @ [node]\<rparr>"
  show "successively (\<lambda>a b. b \<in> set (dependenciesOf dag a)) (recStack ?st)"
    using d(1) assms(3) by (auto simp: successively_append_iff)
  show "visited ?st n = 1 \<longleftrightarrow> n \<in> set (recStack ?st)" for n
    using d(2)[of n] by auto
  show "visited ?st n = 0 \<or> visited ?st n = 1 \<or> visited ?st n = 2" for n
    using d(3)[of n] by auto
  show "visited ?st m = 2" if "visited ?st n = 2" "m \<in> set (dependenciesOf dag n)" for n m
  proof -
    have n: "visited st n = 2" using that(1) by (auto split: if_splits)
    then have "visited st m = 2" using d(4) that(2) by blast
    then show ?thesis using assms(2) by auto
  qed
  show "(n, n) \<notin> (edges dag)\<^sup>+" if "visited ?st n = 2" for n
    using that d(5)[of n] by (auto split: if_splits)
qed

lemma black_closed_reach:
  assumes "\<forall>n m. visited st n = 2 \<longrightarrow> m \<in> set (dependenciesOf dag n) \<longrightarrow> visited st m = 2"
    and "(a, b) \<in> (edges dag)\<^sup>*" and "visited st a = 2"
  shows "visited st b = 2"
  using assms(2,3)
proof (induction rule: rtrancl_induct)
  case base
  then show ?case by simp
next
  case (step y z)
  then show ?case using assms(1) by (auto simp: edges_def)
qed

lemma dfs_finish:
  assumes inv: "dfs_inv dag st2" and rs: "recStack st2 = rs @ [node]" and nrs: "node \<notin> set rs"
    and succ: "\<forall>m \<in> set (dependenciesOf dag node). visited st2 m = 2"
  shows "dfs_inv dag (st2\<lparr>visited := (visited st2)(node := 2), recStack := butlast (recStack st2)\<rparr>)"
proof (rule dfs_invI)
  note d = dfs_invD[OF inv]
  let ?st = "st2\<lparr>visited := (visited st2)(node := 2), recStack := butlast (recStack st2)\<rparr>"
  have g: "visited st2 node = 1" using d(2)[of node] rs by simp
  show "successively (\<lambda>a b. b \<in> set (dependenciesOf dag a)) (recStack ?st)"
    using d(1) rs by (auto simp: successively_append_iff)
  show "visited ?st n = 1 \<longleftrightarrow> n \<in> set (recStack ?st)" for n
    using d(2)[of n] rs nrs by auto
  show "visited ?st n = 0 \<or> visited ?st n = 1 \<or> visited ?st n = 2" for n
    using d(3)[of n] by auto
  show "visited ?st m = 2" if "visited ?st n = 2" "m \<in> set (dependenciesOf dag n)" for n m
  proof (cases "n = node")
    case True
    then show ?thesis using succ that(2) by auto
  next
    case False
    then have "visited st2 n = 2" using that(1) by simp
    then have "visited st2 m = 2" using d(4) that(2) by blast
    then show ?thesis by auto
  qed
  show "(n, n) \<notin> (edges dag)\<^sup>+" if "visited ?st n = 2" for n
  proof (cases "n = node")
    case False
    then show ?thesis using that d(5)[of n] by simp
  next
    case True
    show ?thesis
    proof
      assume "(n, n) \<in> (edges dag)\<^sup>+"
      then obtain m where m: "(node, m) \<in> edges dag" "(m, node) \<in> (edges dag)\<^sup>*"
        using True by (meson tranclD)
      then have "visited st2 m = 2" using succ by (simp add: edges_def)
      with m(2) have "visited st2 node = 2"
        using black_closed_reach[of st2 dag m node] d(4) by blast
      then show False using g by simp
    qed
  qed
qed

lemma successively_dropWhile:
  "successively P xs \<Longrightarrow> successively P (dropWhile Q xs)"
  by (induction xs rule: induct_list012) auto

lemma dfs_cycle_found:
  assumes inv: "dfs_inv dag st" and g: "visited st dep = 1"
    and e: "dep \<in> set (dependenciesOf dag (last (recStack st)))"
  shows "is_cycle_path dag (dropWhile (\<lambda>x. x \<noteq> dep) (recStack st) @ [dep])"
proof -
  let ?rs = "recStack st"
  let ?suf = "dropWhile (\<lambda>x. x \<noteq> dep) ?rs"
  have mem: "dep \<in> set ?rs" using dfs_invD(2)[OF inv, of dep] g by simp
  then have ne: "?suf \<noteq> []" by (simp add: dropWhile_eq_Nil_conv)
  have hd: "hd ?suf = dep" using ne hd_dropWhile[of "\<lambda>x. x \<noteq> dep" ?rs] by auto
  have "?rs = takeWhile (\<lambda>x. x \<noteq> dep) ?rs @ ?suf" by simp
  then have last: "last ?suf = last ?rs" using ne by (metis last_appendR)
  have p: "successively (\<lambda>a b. b \<in> set (dependenciesOf dag a)) ?suf"
    using dfs_invD(1)[OF inv] by (rule successively_dropWhile)
  have "successively (\<lambda>a b. b \<in> set (dependenciesOf dag a)) (?suf @ [dep])"
    using p ne last e by (simp add: successively_append_iff)
  moreover have "hd (?suf @ [dep]) = last (?suf @ [dep])" using ne hd by simp
  moreover have "2 \<le> length (?suf @ [dep])" using ne by (cases ?suf) auto
  ultimately show ?thesis by (simp add: is_cycle_path_def)
qed

lemma white_after_push:
  assumes "node \<in> set (dfs_nodes dag)" and "visited st node = 0" and "card (white dag st) \<le> Suc fuel"
  shows "card (white dag (st\<lparr>visited := (visited st)(node := 1), recStack := rs\<rparr>)) \<le> fuel"
proof -
  have "white dag (st\<lparr>visited := (visited st)(node := 1), recStack := rs\<rparr>) = white dag st - {node}"
    by (auto simp: white_def)
  moreover have "node \<in> white dag st" using assms by (simp add: white_def)
  moreover have "finite (white dag st)" by (simp add: white_def)
  ultimately show ?thesis using assms(3) by simp
qed

lemma white_mono:
  assumes "\<forall>n. visited st n \<noteq> 0 \<longrightarrow> visited st' n = visited st n"
  shows "card (white dag st') \<le> card (white dag st)"
proof (rule card_mono)
  show "finite (white dag st)" by (simp add: white_def)
  show "white dag st' \<subseteq> white dag st" using assms by (auto simp: white_def)
qed

lemma deps_in_nodes:
  assumes "d \<in> set (dependenciesOf dag n)"
  shows "d \<in> set (dfs_nodes dag)"
proof -
  from assms obtain t where t: "map_of dag n = Some t" "d \<in> set (getDependencies t)"
    by (cases "map_of dag n") (auto simp: dependenciesOf_def)
  then have "(n, t) \<in> set dag" by (simp add: map_of_SomeD)
  then have "d \<in> set (concat (map (\<lambda>(name, t). getDependencies t) dag))" using t(2) by force
  then show ?thesis by (simp add: dfs_nodes_def)
qed

lemma dfs_ret_True: "dfs_ret dag st (Some (True, st')) \<longleftrightarrow> is_cycle_path dag (cycleOut st')"
  by (auto simp: dfs_ret_def)

lemma dfs_ret_False:
  "dfs_ret dag st (Some (False, st')) \<longleftrightarrow>
     dfs_inv dag st' \<and> recStack st' = recStack st \<and> cycleOut st' = cycleOut st \<and>
     (\<forall>n. visited st n \<noteq> 0 \<longrightarrow> visited st' n = visited st n)"
  by (auto simp: dfs_ret_def)

lemma dfs_main:
  "dfs_inv dag st \<Longrightarrow> visited st node = 0 \<Longrightarrow> node \<in> set (dfs_nodes dag) \<Longrightarrow>
   (recStack st \<noteq> [] \<longrightarrow> node \<in> set (dependenciesOf dag (last (recStack st)))) \<Longrightarrow>
   card (white dag st) \<le> fuel \<Longrightarrow>
   dfs_ret dag st (hasCycleUtil fuel dag node st) \<and>
   (\<forall>st'. hasCycleUtil fuel dag node st = Some (False, st') \<longrightarrow> visited st' node = 2)"
  and dfs_deps:
  "dfs_inv dag st \<Longrightarrow> recStack st \<noteq> [] \<Longrightarrow>
   (\<forall>d \<in> set deps. d \<in> set (dependenciesOf dag (last (recStack st)))) \<Longrightarrow>
   card (white dag st) \<le> fuel \<Longrightarrow>
   dfs_ret dag st (visitDependencies fuel dag deps st) \<and>
   (\<forall>st'. visitDependencies fuel dag deps st = Some (False, st') \<longrightarrow> (\<forall>d \<in> set deps. visited st' d = 2))"
proof (induction fuel dag node st and fuel dag deps st rule: hasCycleUtil_visitDependencies.induct)
  case (1 dag node st)
  have "node \<in> white dag st" using 1 by (simp add: white_def)
  moreover have "finite (white dag st)" by (simp add: white_def)
  ultimately have "card (white dag st) \<noteq> 0" by auto
  then show ?case using 1 by simp
next
  case (2 fuel dag node st)
  let ?st1 = "st\<lparr>visited := (visited st)(node := 1), recStack := recStack st @ [node]\<rparr>"
  have inv1: "dfs_inv dag ?st1" by (rule dfs_push[OF "2.prems"(1,2,4)])
  have nrs: "node \<notin> set (recStack st)" using dfs_invD(2)[OF "2.prems"(1), of node] "2.prems"(2) by simp
  have w1: "card (white dag ?st1) \<le> fuel" by (rule white_after_push[OF "2.prems"(3,2,5)])
  show ?case
  proof (cases "map_of dag node")
    case None
    then have nodeps: "dependenciesOf dag node = []" by (simp add: dependenciesOf_def)
    let ?st3 = "?st1\<lparr>visited := (visited ?st1)(node := 2), recStack := butlast (recStack ?st1)\<rparr>"
    have r: "hasCycleUtil (Suc fuel) dag node st = Some (False, ?st3)"
      using None by (simp add: Let_def)
    have "dfs_inv dag ?st3"
      by (rule dfs_finish[OF inv1, of "recStack st"]) (use nrs nodeps in auto)
    then have "dfs_ret dag st (Some (False, ?st3))"
      using "2.prems"(2) by (auto simp: dfs_ret_False)
    then show ?thesis unfolding r by simp
  next
    case (Some t)
    then have deps: "dependenciesOf dag node = getDependencies t" by (simp add: dependenciesOf_def)
    have ih: "dfs_ret dag ?st1 (visitDependencies fuel dag (getDependencies t) ?st1) \<and>
      (\<forall>st'. visitDependencies fuel dag (getDependencies t) ?st1 = Some (False, st') \<longrightarrow>
         (\<forall>d \<in> set (getDependencies t). visited st' d = 2))"
      by (rule "2.IH"[OF refl Some inv1]) (use deps w1 in auto)
    then obtain b st2 where r2: "visitDependencies fuel dag (getDependencies t) ?st1 = Some (b, st2)"
      by (auto simp: dfs_ret_def)
    show ?thesis
    proof (cases b)
      case True
      then have r: "hasCycleUtil (Suc fuel) dag node st = Some (True, st2)"
        using Some r2 by (simp add: Let_def)
      have "is_cycle_path dag (cycleOut st2)" using ih r2 True by (simp add: dfs_ret_True dfs_ret_False)
      then show ?thesis unfolding r by (simp add: dfs_ret_True dfs_ret_False)
    next
      case False
      let ?st3 = "st2\<lparr>visited := (visited st2)(node := 2), recStack := butlast (recStack st2)\<rparr>"
      have r: "hasCycleUtil (Suc fuel) dag node st = Some (False, ?st3)"
        using Some r2 False by (simp add: Let_def)
      from ih r2 False have inv2: "dfs_inv dag st2" and rs2: "recStack st2 = recStack st @ [node]"
        and c2: "cycleOut st2 = cycleOut st"
        and m2: "\<And>n. visited ?st1 n \<noteq> 0 \<Longrightarrow> visited st2 n = visited ?st1 n"
        and b2: "\<forall>d \<in> set (getDependencies t). visited st2 d = 2"
        by (auto simp: dfs_ret_False)
      have inv3: "dfs_inv dag ?st3"
        by (rule dfs_finish[OF inv2 rs2 nrs]) (use b2 deps in simp)
      have m3: "visited ?st3 n = visited st n" if "visited st n \<noteq> 0" for n
      proof -
        have "n \<noteq> node" using that "2.prems"(2) by auto
        then show ?thesis using m2[of n] that by simp
      qed
      have "dfs_ret dag st (Some (False, ?st3))"
        using inv3 rs2 c2 m3 by (auto simp: dfs_ret_False)
      then show ?thesis unfolding r by simp
    qed
  qed
next
  case (3 fuel dag st)
  then show ?case by (simp add: dfs_ret_True dfs_ret_False)
next
  case (4 fuel dag dep deps st)
  note d = dfs_invD[OF "4.prems"(1)]
  have e: "dep \<in> set (dependenciesOf dag (last (recStack st)))" using "4.prems"(3) by simp
  consider (w) "visited st dep = 0" | (g) "visited st dep = 1" | (b) "visited st dep = 2"
    using d(3)[of dep] by blast
  then show ?case
  proof cases
    case w
    have ih1: "dfs_ret dag st (hasCycleUtil fuel dag dep st) \<and>
        (\<forall>st'. hasCycleUtil fuel dag dep st = Some (False, st') \<longrightarrow> visited st' dep = 2)"
      by (rule "4.IH"(1)[OF w "4.prems"(1) w deps_in_nodes[OF e]]) (use e "4.prems"(4) in auto)
    then obtain b st1 where r1: "hasCycleUtil fuel dag dep st = Some (b, st1)"
      by (auto simp: dfs_ret_def)
    show ?thesis
    proof (cases b)
      case True
      then have r: "visitDependencies fuel dag (dep # deps) st = Some (True, st1)"
        using w r1 by simp
      have "is_cycle_path dag (cycleOut st1)" using ih1 r1 True by (simp add: dfs_ret_True dfs_ret_False)
      then show ?thesis unfolding r by (simp add: dfs_ret_True dfs_ret_False)
    next
      case False
      then have r: "visitDependencies fuel dag (dep # deps) st = visitDependencies fuel dag deps st1"
        using w r1 by simp
      from ih1 r1 False have inv1: "dfs_inv dag st1" and rs1: "recStack st1 = recStack st"
        and c1: "cycleOut st1 = cycleOut st"
        and m1: "\<And>n. visited st n \<noteq> 0 \<Longrightarrow> visited st1 n = visited st n"
        and b1: "visited st1 dep = 2"
        by (auto simp: dfs_ret_False)
      have w1: "card (white dag st1) \<le> fuel"
        using white_mono[of st st1 dag] m1 "4.prems"(4) by auto
      have ih2: "dfs_ret dag st1 (visitDependencies fuel dag deps st1) \<and>
         (\<forall>st'. visitDependencies fuel dag deps st1 = Some (False, st') \<longrightarrow> (\<forall>d \<in> set deps. visited st' d = 2))"
        by (rule "4.IH"(2)[OF w r1 refl _ inv1]) (use False rs1 "4.prems"(2,3) w1 in auto)
      then obtain b' st2 where r2: "visitDependencies fuel dag deps st1 = Some (b', st2)"
        by (auto simp: dfs_ret_def)
      show ?thesis
      proof (cases b')
        case True
        then show ?thesis using ih2 r2 unfolding r by (simp add: dfs_ret_True dfs_ret_False)
      next
        case False
        from ih2 r2 False have inv2: "dfs_inv dag st2" and rs2: "recStack st2 = recStack st1"
          and c2: "cycleOut st2 = cycleOut st1"
          and m2: "\<And>n. visited st1 n \<noteq> 0 \<Longrightarrow> visited st2 n = visited st1 n"
          and b2: "\<forall>d \<in> set deps. visited st2 d = 2"
          by (auto simp: dfs_ret_False)
        have m: "visited st2 n = visited st n" if "visited st n \<noteq> 0" for n
          using m1[OF that] m2[of n] that by simp
        have "visited st2 dep = 2" using m2[of dep] b1 by simp
        then show ?thesis unfolding r r2 using False inv2 rs1 rs2 c1 c2 m b2
          by (auto simp: dfs_ret_False)
      qed
    qed
  next
    case g
    have r: "visitDependencies fuel dag (dep # deps) st
        = Some (True, st\<lparr>cycleOut := dropWhile (\<lambda>x. x \<noteq> dep) (recStack st) @ [dep]\<rparr>)"
      using g by simp
    show ?thesis unfolding r using dfs_cycle_found[OF "4.prems"(1) g e]
      by (simp add: dfs_ret_True dfs_ret_False)
  next
    case b
    then have r: "visitDependencies fuel dag (dep # deps) st = visitDependencies fuel dag deps st"
      by simp
    have ih: "dfs_ret dag st (visitDependencies fuel dag deps st) \<and>
         (\<forall>st'. visitDependencies fuel dag deps st = Some (False, st') \<longrightarrow> (\<forall>d \<in> set deps. visited st' d = 2))"
      by (rule "4.IH"(3)[OF _ _ "4.prems"(1,2)]) (use b "4.prems"(3,4) in auto)
    show ?thesis unfolding r using ih b by (auto simp: dfs_ret_def)
  qed
qed

lemma detectLoop_correct:
  "dfs_inv dag st \<Longrightarrow> recStack st = [] \<Longrightarrow> set names \<subseteq> set (dfs_nodes dag) \<Longrightarrow>
   card (white dag st) \<le> fuel \<Longrightarrow>
   \<exists>r. detectLoop fuel dag names st = Some r \<and>
     (if hasCycle r then is_cycle_path dag (cycleNodes r)
      else cycleNodes r = [] \<and>
           (\<exists>st'. dfs_inv dag st' \<and> recStack st' = [] \<and>
                  (\<forall>n. visited st n \<noteq> 0 \<longrightarrow> visited st' n = visited st n) \<and>
                  (\<forall>n \<in> set names. visited st' n \<noteq> 0)))"
proof (induction names arbitrary: st)
  case Nil
  then show ?case by auto
next
  case (Cons name names)
  show ?case
  proof (cases "visited st name = 0")
    case False
    have "\<exists>r. detectLoop fuel dag names st = Some r \<and>
     (if hasCycle r then is_cycle_path dag (cycleNodes r)
      else cycleNodes r = [] \<and>
           (\<exists>st'. dfs_inv dag st' \<and> recStack st' = [] \<and>
                  (\<forall>n. visited st n \<noteq> 0 \<longrightarrow> visited st' n = visited st n) \<and>
                  (\<forall>n \<in> set names. visited st' n \<noteq> 0)))"
      by (rule Cons.IH) (use Cons.prems in auto)
    then obtain r where r: "detectLoop fuel dag names st = Some r"
      and p: "if hasCycle r then is_cycle_path dag (cycleNodes r)
      else cycleNodes r = [] \<and>
           (\<exists>st'. dfs_inv dag st' \<and> recStack st' = [] \<and>
                  (\<forall>n. visited st n \<noteq> 0 \<longrightarrow> visited st' n = visited st n) \<and>
                  (\<forall>n \<in> set names. visited st' n \<noteq> 0))" by blast
    have e: "detectLoop fuel dag (name # names) st = Some r" using False r by simp
    show ?thesis
    proof (cases "hasCycle r")
      case True
      then show ?thesis using e p by simp
    next
      case nc: False
      then obtain st' where s: "dfs_inv dag st'" "recStack st' = []"
        "\<forall>n. visited st n \<noteq> 0 \<longrightarrow> visited st' n = visited st n"
        "\<forall>n \<in> set names. visited st' n \<noteq> 0" using p by auto
      have "visited st' name \<noteq> 0" using s(3) False by simp
      then show ?thesis using e p nc s by auto
    qed
  next
    case True
    have m: "dfs_ret dag st (hasCycleUtil fuel dag name st) \<and>
      (\<forall>st'. hasCycleUtil fuel dag name st = Some (False, st') \<longrightarrow> visited st' name = 2)"
      by (rule dfs_main[OF Cons.prems(1) True]) (use Cons.prems in auto)
    then obtain b st1 where r1: "hasCycleUtil fuel dag name st = Some (b, st1)"
      by (auto simp: dfs_ret_def)
    show ?thesis
    proof (cases b)
      case True
      then have "is_cycle_path dag (cycleOut st1)" using m r1 by (simp add: dfs_ret_True)
      then show ?thesis using \<open>visited st name = 0\<close> r1 True by simp
    next
      case False
      from m r1 False have inv1: "dfs_inv dag st1" and rs1: "recStack st1 = recStack st"
        and m1: "\<And>n. visited st n \<noteq> 0 \<Longrightarrow> visited st1 n = visited st n"
        and b1: "visited st1 name = 2"
        by (auto simp: dfs_ret_False)
      have w1: "card (white dag st1) \<le> fuel"
        using white_mono[of st st1 dag] m1 Cons.prems(4) by auto
      have "\<exists>r. detectLoop fuel dag names st1 = Some r \<and>
       (if hasCycle r then is_cycle_path dag (cycleNodes r)
        else cycleNodes r = [] \<and>
           (\<exists>st'. dfs_inv dag st' \<and> recStack st' = [] \<and>
                  (\<forall>n. visited st1 n \<noteq> 0 \<longrightarrow> visited st' n = visited st1 n) \<and>
                  (\<forall>n \<in> set names. visited st' n \<noteq> 0)))"
        by (rule Cons.IH[OF inv1]) (use rs1 Cons.prems w1 in auto)
      then obtain r where r: "detectLoop fuel dag names st1 = Some r"
        and p: "if hasCycle r then is_cycle_path dag (cycleNodes r)
        else cycleNodes r = [] \<and>
           (\<exists>st'. dfs_inv dag st' \<and> recStack st' = [] \<and>
                  (\<forall>n. visited st1 n \<noteq> 0 \<longrightarrow> visited st' n = visited st1 n) \<and>
                  (\<forall>n \<in> set names. visited st' n \<noteq> 0))" by blast
      have e: "detectLoop fuel dag (name # names) st = Some r"
        using \<open>visited st name = 0\<close> r1 False r by simp
      show ?thesis
      proof (cases "hasCycle r")
        case True
        then show ?thesis using e p by simp
      next
        case nc: False
        then obtain st' where s: "dfs_inv dag st'" "recStack st' = []"
          "\<forall>n. visited st1 n \<noteq> 0 \<longrightarrow> visited st' n = visited st1 n"
          "\<forall>n \<in> set names. visited st' n \<noteq> 0" using p by auto
        have a: "visited st' name \<noteq> 0" using s(3) b1 by simp
        have c: "visited st' n = visited st n" if "visited st n \<noteq> 0" for n
          using m1[OF that] s(3) that by simp
        have "\<exists>st'. dfs_inv dag st' \<and> recStack st' = [] \<and>
                  (\<forall>n. visited st n \<noteq> 0 \<longrightarrow> visited st' n = visited st n) \<and>
                  (\<forall>n \<in> set (name # names). visited st' n \<noteq> 0)"
          using s(1,2,4) a c by (intro exI[of _ st']) auto
        then show ?thesis using e p nc by simp
      qed
    qed
  qed
qed

lemma path_trancl:
  "successively (\<lambda>a b. b \<in> set (dependenciesOf dag a)) p \<Longrightarrow> 2 \<le> length p \<Longrightarrow>
   (hd p, last p) \<in> (edges dag)\<^sup>+"
proof (induction p rule: induct_list012)
  case 1
  then show ?case by simp
next
  case (2 x)
  then show ?case by simp
next
  case (3 x y zs)
  have e: "(x, y) \<in> edges dag" using 3(3) by (simp add: edges_def)
  show ?case
  proof (cases zs)
    case Nil
    then show ?thesis using e by auto
  next
    case (Cons z zs')
    then have "(hd (y # zs), last (y # zs)) \<in> (edges dag)\<^sup>+" using 3 by simp
    then show ?thesis using e Cons by (simp add: trancl_into_trancl2)
  qed
qed

lemma cycle_path_not_acyclic: "is_cycle_path dag p \<Longrightarrow> \<not> acyclic (edges dag)"
  using path_trancl[of dag p] by (auto simp: is_cycle_path_def acyclic_def)

lemma dfs_inv_init: "dfs_inv dag \<lparr>visited = (\<lambda>_. 0), recStack = [], cycleOut = []\<rparr>"
  by (rule dfs_invI) simp_all

lemma white_bound: "card (white dag st) \<le> length (dfs_nodes dag)"
proof -
  have "card (white dag st) \<le> card (set (dfs_nodes dag))"
    by (rule card_mono) (auto simp: white_def)
  then show ?thesis using card_length[of "dfs_nodes dag"] by simp
qed

lemma edge_source_registered:
  assumes "(x, y) \<in> edges dag" shows "x \<in> set (map fst dag)"
proof -
  from assms have "map_of dag x \<noteq> None"
    by (cases "map_of dag x") (auto simp: edges_def dependenciesOf_def)
  then show ?thesis by (metis map_of_eq_None_iff set_map)
qed

lemma detect_main:
  "\<exists>r. detectCyclesWithPath dag = Some r \<and> (hasCycle r \<longleftrightarrow> \<not> acyclic (edges dag)) \<and>
       (if hasCycle r then is_cycle_path dag (cycleNodes r) else cycleNodes r = [])"
proof -
  let ?st0 = "\<lparr>visited = (\<lambda>_. 0), recStack = [], cycleOut = []\<rparr>"
  have "\<exists>r. detectLoop (Suc (length (dfs_nodes dag))) dag (map fst dag) ?st0 = Some r \<and>
     (if hasCycle r then is_cycle_path dag (cycleNodes r)
      else cycleNodes r = [] \<and>
           (\<exists>st'. dfs_inv dag st' \<and> recStack st' = [] \<and>
                  (\<forall>n. visited ?st0 n \<noteq> 0 \<longrightarrow> visited st' n = visited ?st0 n) \<and>
                  (\<forall>n \<in> set (map fst dag). visited st' n \<noteq> 0)))"
    by (rule detectLoop_correct[OF dfs_inv_init])
       (use white_bound[of dag ?st0] in \<open>auto simp: dfs_nodes_def\<close>)
  then obtain r where r: "detectCyclesWithPath dag = Some r"
    and p0: "if hasCycle r then is_cycle_path dag (cycleNodes r)
      else cycleNodes r = [] \<and>
           (\<exists>st'. dfs_inv dag st' \<and> recStack st' = [] \<and>
                  (\<forall>n. visited ?st0 n \<noteq> 0 \<longrightarrow> visited st' n = visited ?st0 n) \<and>
                  (\<forall>n \<in> set (map fst dag). visited st' n \<noteq> 0))"
    unfolding detectCyclesWithPath_def by blast
  have p: "if hasCycle r then is_cycle_path dag (cycleNodes r)
      else cycleNodes r = [] \<and>
           (\<exists>st'. dfs_inv dag st' \<and> recStack st' = [] \<and>
                  (\<forall>n \<in> set (map fst dag). visited st' n \<noteq> 0))"
    using p0 by (cases "hasCycle r") auto
  show ?thesis
  proof (cases "hasCycle r")
    case True
    then show ?thesis using r p cycle_path_not_acyclic[of dag "cycleNodes r"] by auto
  next
    case False
    then obtain st' where s: "dfs_inv dag st'" "recStack st' = []"
      "\<forall>n \<in> set (map fst dag). visited st' n \<noteq> 0" and c: "cycleNodes r = []" using p by auto
    note d = dfs_invD[OF s(1)]
    have black: "visited st' n = 2" if "n \<in> set (map fst dag)" for n
      using d(2)[of n] d(3)[of n] s(2,3) that by auto
    have "(x, x) \<notin> (edges dag)\<^sup>+" for x
    proof
      assume a: "(x, x) \<in> (edges dag)\<^sup>+"
      then obtain y where "(x, y) \<in> edges dag" by (meson tranclD)
      then have "visited st' x = 2" using black edge_source_registered by blast
      then show False using d(5)[of x] a by simp
    qed
    then have "acyclic (edges dag)" by (simp add: acyclic_def)
    then show ?thesis using r False c by auto
  qed
qed

lemma self_loop_deps:
  "0 < fuel \<Longrightarrow> X \<in> set deps \<Longrightarrow> visited st X = 1 \<Longrightarrow> recStack st = [X] \<Longrightarrow>
   (\<forall>n. n \<noteq> X \<longrightarrow> visited st n \<noteq> 1) \<Longrightarrow>
   \<exists>st'. visitDependencies fuel [(X, t)] deps st = Some (True, st') \<and> cycleOut st' = [X, X]"
proof (induction deps arbitrary: st)
  case Nil
  then show ?case by simp
next
  case (Cons d ds)
  show ?case
  proof (cases "d = X")
    case True
    then show ?thesis using Cons.prems by simp
  next
    case False
    then have X: "X \<in> set ds" using Cons.prems(2) by simp
    have g: "visited st d \<noteq> 1" using False Cons.prems(5) by simp
    obtain k where k: "fuel = Suc k" using Cons.prems(1) by (cases fuel) auto
    show ?thesis
    proof (cases "visited st d = 0")
      case True
      let ?st2 = "st\<lparr>visited := (visited st)(d := 2), recStack := [X]\<rparr>"
      have h: "hasCycleUtil fuel [(X, t)] d st = Some (False, ?st2)"
        using False Cons.prems(4) k by (simp add: Let_def)
      have "\<exists>st'. visitDependencies fuel [(X, t)] ds ?st2 = Some (True, st') \<and> cycleOut st' = [X, X]"
        by (rule Cons.IH[OF Cons.prems(1) X]) (use False Cons.prems in auto)
      then show ?thesis using True h by simp
    next
      case nz: False
      have "\<exists>st'. visitDependencies fuel [(X, t)] ds st = Some (True, st') \<and> cycleOut st' = [X, X]"
        by (rule Cons.IH[OF Cons.prems(1) X Cons.prems(3,4,5)])
      then show ?thesis using nz g by simp
    qed
  qed
qed

lemma self_loop:
  assumes "X \<in> set (getDependencies t)"
  shows "detectCyclesWithPath [(X, t)] = Some \<lparr>hasCycle = True, cycleNodes = [X, X]\<rparr>"
proof -
  let ?st1 = "\<lparr>visited = (\<lambda>_. 0)(X := 1), recStack = [X], cycleOut = []\<rparr>"
  have "\<exists>st'. visitDependencies (length (dfs_nodes [(X, t)])) [(X, t)] (getDependencies t) ?st1
          = Some (True, st') \<and> cycleOut st' = [X, X]"
    by (rule self_loop_deps[OF _ assms]) (auto simp: dfs_nodes_def)
  then obtain st' where s: "visitDependencies (length (dfs_nodes [(X, t)])) [(X, t)] (getDependencies t) ?st1
          = Some (True, st')" "cycleOut st' = [X, X]" by blast
  have "hasCycleUtil (Suc (length (dfs_nodes [(X, t)]))) [(X, t)] X
          \<lparr>visited = (\<lambda>_. 0), recStack = [], cycleOut = []\<rparr> = Some (True, st')"
    using s(1) by (simp add: Let_def)
  then show ?thesis using s(2) by (simp add: detectCyclesWithPath_def)
qed

text \<open>
  Claim C2. For every graph, \<open>detectCyclesWithPath\<close> returns a result; it reports a cycle
  if and only if the induced graph has a directed cycle; the path it then returns has at
  least two entries, begins and ends with the same node and follows declared dependency
  edges only; and for a single target \<open>X\<close> that depends on itself the result is a cycle
  with path \<open>[X, X]\<close>.
\<close>

theorem detectCyclesWithPath_correct:
  "(\<exists>r. detectCyclesWithPath dag = Some r \<and> (hasCycle r \<longleftrightarrow> \<not> acyclic (edges dag)) \<and>
        (hasCycle r \<longrightarrow> is_cycle_path dag (cycleNodes r))) \<and>
   (X \<in> set (getDependencies t) \<longrightarrow>
      detectCyclesWithPath [(X, t)] = Some \<lparr>hasCycle = True, cycleNodes = [X, X]\<rparr>)"
proof
  obtain r where r: "detectCyclesWithPath dag = Some r" "hasCycle r \<longleftrightarrow> \<not> acyclic (edges dag)"
    "if hasCycle r then is_cycle_path dag (cycleNodes r) else cycleNodes r = []"
    using detect_main[of dag] by blast
  then show "\<exists>r. detectCyclesWithPath dag = Some r \<and> (hasCycle r \<longleftrightarrow> \<not> acyclic (edges dag)) \<and>
        (hasCycle r \<longrightarrow> is_cycle_path dag (cycleNodes r))"
    by (intro exI[of _ r]) auto
  show "X \<in> set (getDependencies t) \<longrightarrow>
      detectCyclesWithPath [(X, t)] = Some \<lparr>hasCycle = True, cycleNodes = [X, X]\<rparr>"
    using self_loop by blast
qed

theorem detectCyclesWithPath_correct_witness:
  "detectCyclesWithPath [(''P'', tgt ''P'' [''Q'']), (''Q'', tgt ''Q'' [''P''])]
     = Some \<lparr>hasCycle = True, cycleNodes = [''P'', ''Q'', ''P'']\<rparr> \<and>
   \<not> acyclic (edges [(''P'', tgt ''P'' [''Q'']), (''Q'', tgt ''Q'' [''P''])]) \<and>
   is_cycle_path [(''P'', tgt ''P'' [''Q'']), (''Q'', tgt ''Q'' [''P''])] [''P'', ''Q'', ''P''] \<and>
   detectCyclesWithPath [(''X'', tgt ''X'' [''X''])] = Some \<lparr>hasCycle = True, cycleNodes = [''X'', ''X'']\<rparr> \<and>
   detectCyclesWithPath [(''A'', tgt ''A'' []), (''B'', tgt ''B'' [''A''])]
     = Some \<lparr>hasCycle = False, cycleNodes = []\<rparr> \<and>
   acyclic (edges [(''A'', tgt ''A'' []), (''B'', tgt ''B'' [''A''])])"
proof -
  have 1: "detectCyclesWithPath [(''P'', tgt ''P'' [''Q'']), (''Q'', tgt ''Q'' [''P''])]
     = Some \<lparr>hasCycle = True, cycleNodes = [''P'', ''Q'', ''P'']\<rparr>"
    by (simp add: detectCyclesWithPath_def dfs_nodes_def tgt_def Let_def)
  have 2: "detectCyclesWithPath [(''A'', tgt ''A'' []), (''B'', tgt ''B'' [''A''])]
     = Some \<lparr>hasCycle = False, cycleNodes = []\<rparr>"
    by (simp add: detectCyclesWithPath_def dfs_nodes_def tgt_def Let_def)
  have 3: "''X'' \<in> set (getDependencies (tgt ''X'' [''X'']))" by (simp add: tgt_def)
  from detectCyclesWithPath_correct[of "[(''P'', tgt ''P'' [''Q'']), (''Q'', tgt ''Q'' [''P''])]" "''X''" "tgt ''X'' [''X'']"]
    detectCyclesWithPath_correct[of "[(''A'', tgt ''A'' []), (''B'', tgt ''B'' [''A''])]" "''X''" "tgt ''X'' [''X'']"]
    1 2 3
  show ?thesis by auto
qed

subsection \<open>Executor\<close>

lemma outputsExist_iff: "outputsExist fs outs \<longleftrightarrow> (\<forall>output \<in> set outs. contents fs output \<noteq> None)"
  by (induction outs) auto

lemma up_to_date_code:
  "up_to_date target st \<longleftrightarrow> outputsExist (files (env st)) (getOutputs target) \<and> \<not> isOutOfDate target st"
  by (simp add: up_to_date_def outputsExist_iff isOutOfDate_def)

lemma trace_printStatus [simp]: "trace (printStatus s n st) = trace st @ [Status s n]"
  by (simp add: printStatus_def)

lemma trace_storeSignature [simp]:
  "trace (storeSignature t st) = trace st @
     [CacheSet (getName t) (computeTargetSignature (files (env st)) (getCommand t) (getInputs t))]"
  by (simp add: storeSignature_def Let_def)

lemma trace_notify:
  "trace (notify col n c tot s st) =
     trace st @ (case progressCallback col of None \<Rightarrow> [] | Some cb \<Rightarrow> [Progress n c tot s])"
  by (simp add: notify_def split: option.splits)

lemma runCommand_cases:
  obtains (dry) "dryRun cfg" "runCommand cfg col t st = (True, st)"
  | (ran) ok w where "\<not> dryRun cfg" "runSimple col (getCommand t) (env st) = (ok, w)"
      "runCommand cfg col t st = (ok, st\<lparr>env := w, trace := trace st @ [Ran (getName t) (getCommand t) ok]\<rparr>)"
proof (cases "dryRun cfg")
  case True
  then show ?thesis using dry by (simp add: runCommand_def)
next
  case False
  obtain ok w where "runSimple col (getCommand t) (env st) = (ok, w)"
    by (cases "runSimple col (getCommand t) (env st)")
  then show ?thesis using ran False by (simp add: runCommand_def)
qed

lemma executeTarget_skip_iff:
  assumes "\<not> cancelled (env st)"
  shows "skipped_without_run target (emitted st (snd (executeTarget cfg col target st)))
           \<longleftrightarrow> up_to_date target st"
proof (cases "up_to_date target st")
  case True
  then show ?thesis using assms
    by (simp add: executeTarget_def up_to_date_code[symmetric] emitted_def skipped_without_run_def)
next
  case False
  show ?thesis
  proof (cases rule: runCommand_cases[of cfg col target "printStatus ''BUILD'' (getName target) st"])
    case dry
    then show ?thesis using assms False
      by (simp add: executeTarget_def up_to_date_code[symmetric] emitted_def skipped_without_run_def)
  next
    case (ran ok w)
    then show ?thesis using assms False
      by (cases ok) (auto simp: executeTarget_def up_to_date_code[symmetric] emitted_def skipped_without_run_def)
  qed
qed

lemma executeTarget_missing_output:
  assumes "\<not> cancelled (env st)" and "output \<in> set (getOutputs target)"
    and "contents (files (env st)) output = None"
  shows "Status ''BUILD'' (getName target) \<in> set (emitted st (snd (executeTarget cfg col target st))) \<and>
         Status ''UP-TO-DATE'' (getName target) \<notin> set (emitted st (snd (executeTarget cfg col target st))) \<and>
         (\<not> dryRun cfg \<longrightarrow> (\<exists>b. Ran (getName target) (getCommand target) b
                                 \<in> set (emitted st (snd (executeTarget cfg col target st)))))"
proof -
  have n: "\<not> up_to_date target st" using assms(2,3) by (auto simp: up_to_date_def)
  show ?thesis
  proof (cases rule: runCommand_cases[of cfg col target "printStatus ''BUILD'' (getName target) st"])
    case dry
    then show ?thesis using assms(1) n
      by (simp add: executeTarget_def up_to_date_code[symmetric] emitted_def)
  next
    case (ran ok w)
    then show ?thesis using assms(1) n
      by (cases ok) (auto simp: executeTarget_def up_to_date_code[symmetric] emitted_def)
  qed
qed

lemma env_printStatus [simp]: "env (printStatus s n st) = env st"
  by (simp add: printStatus_def)

lemma cacheOf_printStatus [simp]: "cacheOf (printStatus s n st) = cacheOf st"
  by (simp add: printStatus_def)

lemma stats_printStatus [simp]: "stats (printStatus s n st) = stats st"
  by (simp add: printStatus_def)

lemma cacheOf_notify [simp]: "cacheOf (notify col n c tot s st) = cacheOf st"
  by (simp add: notify_def split: option.splits)

lemma stats_notify [simp]: "stats (notify col n c tot s st) = stats st"
  by (simp add: notify_def split: option.splits)

lemma up_to_date_printStatus [simp]: "up_to_date t (printStatus s n st) = up_to_date t st"
  by (simp add: up_to_date_def)

lemma singleBody_skip_iff:
  assumes "getTarget dag name = Some target"
  shows "skipped_without_run target (emitted st (snd (singleBody cfg col dag name current st)))
           \<longleftrightarrow> up_to_date target (notify col name current (totalTargets (stats st)) ''BUILDING'' st)"
proof -
  let ?st1 = "notify col name current (totalTargets (stats st)) ''BUILDING'' st"
  show ?thesis
  proof (cases "up_to_date target ?st1")
    case True
    then show ?thesis using assms
      by (simp add: singleBody_def Let_def up_to_date_code[symmetric] emitted_def
            skipped_without_run_def trace_notify split: option.splits)
  next
    case False
    show ?thesis
    proof (cases rule: runCommand_cases[of cfg col target "printStatus ''BUILD'' (getName target) ?st1"])
      case dry
      then show ?thesis using assms False
        by (simp add: singleBody_def Let_def up_to_date_code[symmetric] emitted_def
              skipped_without_run_def trace_notify split: option.splits)
    next
      case (ran ok w)
      then show ?thesis using assms False
        by (cases ok) (auto simp: singleBody_def Let_def up_to_date_code[symmetric] emitted_def
              skipped_without_run_def trace_notify split: option.splits)
    qed
  qed
qed

lemma checking_step:
  assumes "i < length (workers s)" and "workers s ! i = Checking name"
    and "getTarget dag name = Some target"
  shows "workerStep cfg col dag order i s =
     (if up_to_date target (shared s)
      then setWorker i (Counting name Skipped)
             (s\<lparr>shared := printStatus ''UP-TO-DATE'' (getName target) (shared s)\<rparr>)
      else setWorker i (Running name)
             (s\<lparr>shared := printStatus ''BUILD'' (getName target) (shared s)\<rparr>))"
  using assms by (simp add: workerStep_def up_to_date_code)

lemma replay_snoc: "replay (tr @ [e]) c = applyEvent e (replay tr c)"
  by (simp add: replay_def)

lemma cache_writes_ok_snoc:
  "cache_writes_ok dry (tr @ [e]) \<longleftrightarrow>
     cache_writes_ok dry tr \<and>
     (\<forall>n sg. e = CacheSet n sg \<longrightarrow>
        Status ''BUILD'' n \<in> set tr \<and> (\<not> dry \<longrightarrow> (\<exists>c. Ran n c True \<in> set tr)))"
proof -
  have old: "(tr @ [e]) ! i = tr ! i \<and> take i (tr @ [e]) = take i tr" if "i < length tr" for i
    using that by (simp add: nth_append)
  have "cache_writes_ok dry (tr @ [e]) \<longleftrightarrow>
     (\<forall>i<length tr. \<forall>n sg. (tr @ [e]) ! i = CacheSet n sg \<longrightarrow>
        Status ''BUILD'' n \<in> set (take i (tr @ [e])) \<and>
        (\<not> dry \<longrightarrow> (\<exists>c. Ran n c True \<in> set (take i (tr @ [e]))))) \<and>
     (\<forall>n sg. (tr @ [e]) ! length tr = CacheSet n sg \<longrightarrow>
        Status ''BUILD'' n \<in> set (take (length tr) (tr @ [e])) \<and>
        (\<not> dry \<longrightarrow> (\<exists>c. Ran n c True \<in> set (take (length tr) (tr @ [e])))))"
    unfolding cache_writes_ok_def by (simp add: less_Suc_eq all_conj_distrib)
  also have "\<dots> \<longleftrightarrow> cache_writes_ok dry tr \<and>
     (\<forall>n sg. e = CacheSet n sg \<longrightarrow>
        Status ''BUILD'' n \<in> set tr \<and> (\<not> dry \<longrightarrow> (\<exists>c. Ran n c True \<in> set tr)))"
    unfolding cache_writes_ok_def using old by simp
  finally show ?thesis .
qed

lemma cache_inv_printStatus: "cache_inv cfg c0 st \<Longrightarrow> cache_inv cfg c0 (printStatus s n st)"
  by (simp add: cache_inv_def replay_snoc applyEvent_def cache_writes_ok_snoc)

lemma cache_inv_notify: "cache_inv cfg c0 st \<Longrightarrow> cache_inv cfg c0 (notify col n c tot s st)"
  by (cases "progressCallback col")
     (simp_all add: cache_inv_def notify_def replay_snoc applyEvent_def cache_writes_ok_snoc)

lemma cache_inv_stats: "cache_inv cfg c0 st \<Longrightarrow> cache_inv cfg c0 (st\<lparr>stats := b\<rparr>)"
  by (simp add: cache_inv_def)

lemma cache_inv_runCommand:
  "cache_inv cfg c0 st \<Longrightarrow> cache_inv cfg c0 (snd (runCommand cfg col t st))"
  by (cases rule: runCommand_cases[of cfg col t st])
     (simp_all add: cache_inv_def replay_snoc applyEvent_def cache_writes_ok_snoc)

lemma runCommand_trace:
  "runCommand cfg col t st = (ok, st') \<Longrightarrow>
   set (trace st) \<subseteq> set (trace st') \<and>
   (ok \<and> \<not> dryRun cfg \<longrightarrow> Ran (getName t) (getCommand t) True \<in> set (trace st'))"
  by (cases rule: runCommand_cases[of cfg col t st]) auto

lemma cache_inv_storeSignature:
  assumes "cache_inv cfg c0 st" and "Status ''BUILD'' (getName t) \<in> set (trace st)"
    and "\<not> dryRun cfg \<longrightarrow> (\<exists>c. Ran (getName t) c True \<in> set (trace st))"
  shows "cache_inv cfg c0 (storeSignature t st)"
  using assms
  by (simp add: cache_inv_def replay_snoc applyEvent_def cache_writes_ok_snoc storeSignature_def Let_def)

lemma cache_inv_singleBody:
  assumes "cache_inv cfg c0 st"
  shows "cache_inv cfg c0 (snd (singleBody cfg col dag name current st))"
proof (cases "getTarget dag name")
  case None
  then show ?thesis using assms by (simp add: singleBody_def)
next
  case (Some target)
  let ?st1 = "notify col name current (totalTargets (stats st)) ''BUILDING'' st"
  have i1: "cache_inv cfg c0 ?st1" using assms by (rule cache_inv_notify)
  show ?thesis
  proof (cases "up_to_date target ?st1")
    case True
    then show ?thesis using Some i1
      by (simp add: singleBody_def Let_def up_to_date_code[symmetric]
            cache_inv_notify cache_inv_stats cache_inv_printStatus)
  next
    case False
    let ?stb = "printStatus ''BUILD'' (getName target) ?st1"
    obtain ok st2 where r: "runCommand cfg col target ?stb = (ok, st2)"
      by (cases "runCommand cfg col target ?stb")
    have ib: "cache_inv cfg c0 ?stb" using i1 by (rule cache_inv_printStatus)
    have i2: "cache_inv cfg c0 st2" using cache_inv_runCommand[OF ib, of col target] r by simp
    have t2: "Status ''BUILD'' (getName target) \<in> set (trace st2)"
      and r2: "ok \<and> \<not> dryRun cfg \<longrightarrow> Ran (getName target) (getCommand target) True \<in> set (trace st2)"
      using runCommand_trace[OF r] by auto
    show ?thesis
    proof (cases ok)
      case True
      have "cache_inv cfg c0 (storeSignature target st2)"
        by (rule cache_inv_storeSignature[OF i2 t2]) (use r2 True in blast)
      then show ?thesis using Some False r True
        by (simp add: singleBody_def Let_def up_to_date_code[symmetric]
            cache_inv_notify cache_inv_stats cache_inv_printStatus)
    next
      case nok: False
      then show ?thesis using Some False r i2
        by (simp add: singleBody_def Let_def up_to_date_code[symmetric]
            cache_inv_notify cache_inv_stats cache_inv_printStatus)
    qed
  qed
qed

lemma cache_inv_singleLoop:
  "cache_inv cfg c0 st \<Longrightarrow> cache_inv cfg c0 (snd (singleLoop cfg col dag names current st))"
proof (induction names arbitrary: current st)
  case Nil
  then show ?case by simp
next
  case (Cons name names)
  obtain ctl st' where b: "singleBody cfg col dag name (Suc current) st = (ctl, st')"
    by (cases "singleBody cfg col dag name (Suc current) st")
  have i: "cache_inv cfg c0 st'" using cache_inv_singleBody[OF Cons.prems, of col dag name "Suc current"] b by simp
  show ?case using Cons.prems b i Cons.IH[OF i]
    by (cases ctl) simp_all
qed

lemma cache_inv_single:
  assumes "trace st = []"
  shows "cache_inv cfg (cacheOf st) (snd (executeSingleThreaded cfg col ord dag st))"
  unfolding executeSingleThreaded_def Let_def
  by (rule cache_inv_singleLoop) (simp add: cache_inv_def assms replay_def cache_writes_ok_def)

lemma worker_cache_ok_mono:
  "set tr \<subseteq> set tr' \<Longrightarrow> worker_cache_ok cfg dag tr w \<Longrightarrow> worker_cache_ok cfg dag tr' w"
  by (cases w) (simp_all add: worker_cache_ok_def, blast+)

lemma mt_cache_inv_update:
  assumes "mt_cache_inv cfg dag c0 s" and "cache_inv cfg c0 (shared s')"
    and "set (trace (shared s)) \<subseteq> set (trace (shared s'))"
    and "worker_cache_ok cfg dag (trace (shared s')) w'"
    and "workers s' = (workers s)[i := w']"
  shows "mt_cache_inv cfg dag c0 s'"
proof -
  have "worker_cache_ok cfg dag (trace (shared s')) w" if "w \<in> set (workers s')" for w
  proof -
    have "w = w' \<or> w \<in> set (workers s)"
      using that assms(5) set_update_subset_insert[of "workers s" i w'] by auto
    then show ?thesis
      using assms(1,3,4) worker_cache_ok_mono[of "trace (shared s)" "trace (shared s')" cfg dag w]
      by (auto simp: mt_cache_inv_def)
  qed
  then show ?thesis using assms(2) by (simp add: mt_cache_inv_def)
qed

lemma mt_cache_inv_same:
  assumes "mt_cache_inv cfg dag c0 s" and "shared s' = shared s" and "workers s' = workers s"
  shows "mt_cache_inv cfg dag c0 s'"
  using assms by (simp add: mt_cache_inv_def)

lemma mt_cache_inv_workerStep:
  assumes inv: "mt_cache_inv cfg dag c0 s"
  shows "mt_cache_inv cfg dag c0 (workerStep cfg col dag order i s)"
proof (cases "length (workers s) \<le> i")
  case True
  then show ?thesis using inv by (simp add: workerStep_def)
next
  case False
  then have i: "i < length (workers s)" by simp
  have ci: "cache_inv cfg c0 (shared s)" using inv by (simp add: mt_cache_inv_def)
  have wi: "worker_cache_ok cfg dag (trace (shared s)) (workers s ! i)"
    using inv i by (simp add: mt_cache_inv_def)
  show ?thesis
  proof (cases "workers s ! i")
    case AtTop
    show ?thesis
      by (rule mt_cache_inv_update[OF inv, where i = i and w' = "if cancelled (env (shared s)) then Finished else Waiting"])
         (use False AtTop ci in \<open>auto simp: workerStep_def setWorker_def worker_cache_ok_def\<close>)
  next
    case Waiting
    obtain b cf pf where p: "waitPredicate cfg dag order s = (b, cf, pf)"
      by (cases "waitPredicate cfg dag order s")
    show ?thesis
    proof (cases "mtx s \<noteq> None \<or> \<not> b")
      case True
      then show ?thesis
        by (intro mt_cache_inv_same[OF inv])
           (use False Waiting p in \<open>auto simp: workerStep_def setWorker_def\<close>)
    next
      case nb: False
      show ?thesis
        by (rule mt_cache_inv_update[OF inv, where i = i and w' = Woken])
           (use False Waiting p nb ci in \<open>auto simp: workerStep_def setWorker_def worker_cache_ok_def\<close>)
    qed
  next
    case Woken
    obtain r cf pf where p: "findReady dag order (completed s, inProgress s) = (r, cf, pf)"
      by (cases "findReady dag order (completed s, inProgress s)")
    show ?thesis
      by (rule mt_cache_inv_update[OF inv, where i = i and w' = "workers (workerStep cfg col dag order i s) ! i"])
         (use False Woken p ci i in \<open>auto simp: workerStep_def setWorker_def worker_cache_ok_def split: option.splits\<close>)
  next
    case (Picked name)
    show ?thesis
      by (rule mt_cache_inv_update[OF inv, where i = i and w' = "workers (workerStep cfg col dag order i s) ! i"])
         (use False Picked ci i in \<open>auto simp: workerStep_def setWorker_def worker_cache_ok_def trace_notify
              cache_inv_notify split: option.splits\<close>)
  next
    case (Checking name)
    show ?thesis
      by (rule mt_cache_inv_update[OF inv, where i = i and w' = "workers (workerStep cfg col dag order i s) ! i"])
         (use False Checking ci i in \<open>auto simp: workerStep_def setWorker_def worker_cache_ok_def
              cache_inv_printStatus split: option.splits\<close>)
  next
    case (Running name)
    show ?thesis
    proof (cases "getTarget dag name")
      case None
      show ?thesis
        by (rule mt_cache_inv_update[OF inv, where i = i and w' = AtTop])
           (use False Running None ci in \<open>auto simp: workerStep_def setWorker_def worker_cache_ok_def\<close>)
    next
      case (Some target)
      obtain ok st where r: "runCommand cfg col target (shared s) = (ok, st)"
        by (cases "runCommand cfg col target (shared s)")
      have c: "cache_inv cfg c0 st" using cache_inv_runCommand[OF ci, of col target] r by simp
      have b: "Status ''BUILD'' (getName target) \<in> set (trace (shared s))"
        using wi Running Some by (simp add: worker_cache_ok_def)
      note t = runCommand_trace[OF r]
      show ?thesis
        by (rule mt_cache_inv_update[OF inv, where i = i and w' = "if ok then Signing name else Failing name"])
           (use False Running Some r c b t in \<open>auto simp: workerStep_def setWorker_def worker_cache_ok_def\<close>)
    qed
  next
    case (Signing name)
    show ?thesis
    proof (cases "getTarget dag name")
      case None
      show ?thesis
        by (rule mt_cache_inv_update[OF inv, where i = i and w' = AtTop])
           (use False Signing None ci in \<open>auto simp: workerStep_def setWorker_def worker_cache_ok_def\<close>)
    next
      case (Some target)
      have c: "cache_inv cfg c0 (storeSignature target (shared s))"
        by (rule cache_inv_storeSignature[OF ci]) (use wi Signing Some in \<open>auto simp: worker_cache_ok_def\<close>)
      show ?thesis
        by (rule mt_cache_inv_update[OF inv, where i = i and w' = "Succeeding name"])
           (use False Signing Some c in \<open>auto simp: workerStep_def setWorker_def worker_cache_ok_def\<close>)
    qed
  next
    case (Succeeding name)
    show ?thesis
      by (rule mt_cache_inv_update[OF inv, where i = i and w' = "workers (workerStep cfg col dag order i s) ! i"])
         (use False Succeeding ci i in \<open>auto simp: workerStep_def setWorker_def worker_cache_ok_def
              cache_inv_printStatus split: option.splits\<close>)
  next
    case (Failing name)
    show ?thesis
      by (rule mt_cache_inv_update[OF inv, where i = i and w' = "workers (workerStep cfg col dag order i s) ! i"])
         (use False Failing ci i in \<open>auto simp: workerStep_def setWorker_def worker_cache_ok_def
              cache_inv_printStatus split: option.splits\<close>)
  next
    case (Counting name oc)
    show ?thesis
    proof (cases "mtx s \<noteq> None")
      case True
      then show ?thesis using inv False Counting by (simp add: workerStep_def)
    next
      case nb: False
      show ?thesis
        by (rule mt_cache_inv_update[OF inv, where i = i and w' = "Completing name (oc \<noteq> Failed)"])
           (use False Counting nb ci in \<open>auto simp: workerStep_def setWorker_def worker_cache_ok_def cache_inv_stats\<close>)
    qed
  next
    case (Completing name success)
    show ?thesis
    proof (cases "mtx s \<noteq> None")
      case True
      then show ?thesis using inv False Completing by (simp add: workerStep_def)
    next
      case nb: False
      show ?thesis
        by (rule mt_cache_inv_update[OF inv, where i = i and w' = AtTop])
           (use False Completing nb ci in \<open>auto simp: workerStep_def setWorker_def worker_cache_ok_def\<close>)
    qed
  next
    case Finished
    then show ?thesis using inv False by (simp add: workerStep_def)
  qed
qed

lemma mt_cache_inv_step:
  assumes "mt_cache_inv cfg dag c0 s"
  shows "mt_cache_inv cfg dag c0 (mtStep cfg col dag order s a)"
proof (cases a)
  case (Worker i)
  then show ?thesis using mt_cache_inv_workerStep[OF assms] by simp
next
  case Cancel
  then show ?thesis using assms by (simp add: mt_cache_inv_def setCancelled_def cache_inv_def)
next
  case ResetCancelled
  then show ?thesis using assms by (simp add: mt_cache_inv_def setCancelled_def cache_inv_def)
qed

lemma mt_cache_inv_run:
  "mt_cache_inv cfg dag c0 s \<Longrightarrow> mt_cache_inv cfg dag c0 (foldl (mtStep cfg col dag order) s schedule)"
  by (induction schedule arbitrary: s) (simp_all add: mt_cache_inv_step)

lemma cache_inv_multi:
  assumes "trace st = []"
  shows "cache_inv cfg (cacheOf st) (snd (executeMultiThreaded cfg col ord dag schedule st))"
proof -
  have "mt_cache_inv cfg dag (cacheOf st) (mtInit cfg (topologicalSort ord dag) st)"
    using assms by (auto simp: mt_cache_inv_def mtInit_def cache_inv_def replay_def cache_writes_ok_def
        worker_cache_ok_def)
  from mt_cache_inv_run[OF this] show ?thesis
    by (simp add: executeMultiThreaded_def Let_def mt_cache_inv_def)
qed

lemma finished_mono: "set tr \<subseteq> set tr' \<Longrightarrow> finished d tr \<Longrightarrow> finished d tr'"
  by (auto simp: finished_def finished_by_def)

lemma ordered_by_snoc:
  "ordered_by sts dag (tr @ [e]) \<longleftrightarrow>
     ordered_by sts dag tr \<and>
     (\<forall>t c n. e = Progress t c n ''BUILDING'' \<longrightarrow>
        (\<forall>d \<in> set (dependenciesOf dag t). finished_by sts d tr))"
proof -
  have old: "(tr @ [e]) ! i = tr ! i \<and> take i (tr @ [e]) = take i tr" if "i < length tr" for i
    using that by (simp add: nth_append)
  have "ordered_by sts dag (tr @ [e]) \<longleftrightarrow>
     (\<forall>i<length tr. \<forall>t c n. (tr @ [e]) ! i = Progress t c n ''BUILDING'' \<longrightarrow>
        (\<forall>d \<in> set (dependenciesOf dag t). finished_by sts d (take i (tr @ [e])))) \<and>
     (\<forall>t c n. (tr @ [e]) ! length tr = Progress t c n ''BUILDING'' \<longrightarrow>
        (\<forall>d \<in> set (dependenciesOf dag t). finished_by sts d (take (length tr) (tr @ [e]))))"
    unfolding ordered_by_def by (simp add: less_Suc_eq all_conj_distrib)
  also have "\<dots> \<longleftrightarrow> ordered_by sts dag tr \<and>
     (\<forall>t c n. e = Progress t c n ''BUILDING'' \<longrightarrow>
        (\<forall>d \<in> set (dependenciesOf dag t). finished_by sts d tr))"
    unfolding ordered_by_def using old by simp
  finally show ?thesis .
qed

lemma building_ok_snoc:
  "building_ok dag (tr @ [e]) \<longleftrightarrow>
     building_ok dag tr \<and>
     (\<forall>t c n. e = Progress t c n ''BUILDING'' \<longrightarrow> (\<forall>d \<in> set (dependenciesOf dag t). finished d tr))"
  unfolding building_ok_def finished_def by (rule ordered_by_snoc)

lemma finished_snoc: "finished d tr \<Longrightarrow> finished d (tr @ [e])"
  by (rule finished_mono[of tr]) auto

lemma finished_status:
  "s = ''UP-TO-DATE'' \<or> s = ''SUCCESS'' \<or> s = ''FAILED'' \<Longrightarrow> finished n (tr @ [Status s n])"
  unfolding finished_def finished_by_def by auto

lemma build_inv_snoc:
  assumes "build_inv dag fin st" and "trace st' = trace st @ [e]"
    and "\<forall>t c n. e = Progress t c n ''BUILDING'' \<longrightarrow> (\<forall>d \<in> set (dependenciesOf dag t). finished d (trace st))"
  shows "build_inv dag fin st'"
  using assms by (simp add: build_inv_def building_ok_snoc finished_snoc)

lemma build_inv_printStatus: "build_inv dag fin st \<Longrightarrow> build_inv dag fin (printStatus s n st)"
  by (rule build_inv_snoc[where e = "Status s n"]) simp_all

lemma build_inv_finish:
  assumes "build_inv dag fin st" and "s = ''UP-TO-DATE'' \<or> s = ''SUCCESS'' \<or> s = ''FAILED''"
  shows "build_inv dag (insert n fin) (printStatus s n st)"
proof -
  have "build_inv dag fin (printStatus s n st)" using assms(1) by (rule build_inv_printStatus)
  moreover have "finished n (trace (printStatus s n st))" using assms(2) by (simp add: finished_status)
  ultimately show ?thesis by (simp add: build_inv_def)
qed

lemma build_inv_notify:
  assumes "build_inv dag fin st"
    and "s = ''BUILDING'' \<longrightarrow> (\<forall>d \<in> set (dependenciesOf dag n). finished d (trace st))"
  shows "build_inv dag fin (notify col n c tot s st)"
proof (cases "progressCallback col")
  case None
  then show ?thesis using assms(1) by (simp add: notify_def build_inv_def)
next
  case (Some cb)
  show ?thesis
    by (rule build_inv_snoc[OF assms(1), where e = "Progress n c tot s"])
       (use Some assms(2) in \<open>simp_all add: trace_notify\<close>)
qed

lemma build_inv_stats: "build_inv dag fin st \<Longrightarrow> build_inv dag fin (st\<lparr>stats := b\<rparr>)"
  by (simp add: build_inv_def)

lemma build_inv_runCommand:
  "build_inv dag fin st \<Longrightarrow> build_inv dag fin (snd (runCommand cfg col t st))"
proof (cases rule: runCommand_cases[of cfg col t st])
  case dry
  assume "build_inv dag fin st"
  then show ?thesis using dry by simp
next
  case (ran ok w)
  assume a: "build_inv dag fin st"
  show ?thesis
    by (rule build_inv_snoc[OF a, where e = "Ran (getName t) (getCommand t) ok"]) (use ran in simp_all)
qed

lemma build_inv_storeSignature: "build_inv dag fin st \<Longrightarrow> build_inv dag fin (storeSignature t st)"
  by (rule build_inv_snoc[where e = "CacheSet (getName t)
        (computeTargetSignature (files (env st)) (getCommand t) (getInputs t))"]) simp_all

lemma build_inv_singleBody:
  assumes inv: "build_inv dag fin st" and t: "getTarget dag name = Some target" and k: "getName target = name"
    and deps: "set (dependenciesOf dag name) \<subseteq> fin"
  shows "build_inv dag (insert name fin) (snd (singleBody cfg col dag name current st))"
proof -
  let ?st1 = "notify col name current (totalTargets (stats st)) ''BUILDING'' st"
  have i1: "build_inv dag fin ?st1"
    by (rule build_inv_notify[OF inv]) (use inv deps in \<open>auto simp: build_inv_def\<close>)
  show ?thesis
  proof (cases "up_to_date target ?st1")
    case True
    have "build_inv dag (insert name fin) (printStatus ''UP-TO-DATE'' name ?st1)"
      by (rule build_inv_finish[OF i1]) simp
    then show ?thesis using t k True
      by (simp add: singleBody_def Let_def up_to_date_code[symmetric] build_inv_notify build_inv_stats)
  next
    case False
    let ?stb = "printStatus ''BUILD'' name ?st1"
    obtain ok st2 where r: "runCommand cfg col target ?stb = (ok, st2)"
      by (cases "runCommand cfg col target ?stb")
    have i2: "build_inv dag fin st2"
      using build_inv_runCommand[OF build_inv_printStatus[OF i1], of cfg col target "''BUILD''" name] r by simp
    show ?thesis
    proof (cases ok)
      case True
      have "build_inv dag (insert name fin) (printStatus ''SUCCESS'' name (storeSignature target st2))"
        by (rule build_inv_finish[OF build_inv_storeSignature[OF i2]]) simp
      then show ?thesis using t k False r True
        by (simp add: singleBody_def Let_def up_to_date_code[symmetric] build_inv_notify build_inv_stats)
    next
      case nok: False
      have "build_inv dag (insert name fin) (printStatus ''FAILED'' name st2)"
        by (rule build_inv_finish[OF i2]) simp
      then show ?thesis using t k False r nok
        by (simp add: singleBody_def Let_def up_to_date_code[symmetric] build_inv_notify build_inv_stats)
    qed
  qed
qed

lemma build_inv_singleLoop:
  assumes "build_inv dag fin st"
    and "\<forall>n \<in> set names. \<exists>target. getTarget dag n = Some target \<and> getName target = n"
    and "\<forall>j<length names. set (dependenciesOf dag (names ! j)) \<subseteq> fin \<union> set (take j names)"
  shows "building_ok dag (trace (snd (singleLoop cfg col dag names current st)))"
  using assms
proof (induction names arbitrary: current st fin)
  case Nil
  then show ?case by (simp add: build_inv_def)
next
  case (Cons name names)
  obtain target where t: "getTarget dag name = Some target" "getName target = name"
    using Cons.prems(2) by auto
  have d: "set (dependenciesOf dag name) \<subseteq> fin" using Cons.prems(3) by fastforce
  obtain ctl st' where b: "singleBody cfg col dag name (Suc current) st = (ctl, st')"
    by (cases "singleBody cfg col dag name (Suc current) st")
  have i: "build_inv dag (insert name fin) st'"
    using build_inv_singleBody[OF Cons.prems(1) t d, of cfg col "Suc current"] b by simp
  have nx: "\<forall>j<length names. set (dependenciesOf dag (names ! j)) \<subseteq> insert name fin \<union> set (take j names)"
  proof (intro allI impI)
    fix j assume "j < length names"
    then have "set (dependenciesOf dag ((name # names) ! Suc j)) \<subseteq> fin \<union> set (take (Suc j) (name # names))"
      using Cons.prems(3) by (metis Suc_less_eq length_Cons)
    then show "set (dependenciesOf dag (names ! j)) \<subseteq> insert name fin \<union> set (take j names)" by auto
  qed
  have ih: "building_ok dag (trace (snd (singleLoop cfg col dag names (Suc current) st')))"
    by (rule Cons.IH[OF i _ nx]) (use Cons.prems(2) in auto)
  show ?case
  proof (cases "cancelled (env st)")
    case True
    then show ?thesis using Cons.prems(1) by (simp add: build_inv_def)
  next
    case False
    then show ?thesis using b ih i by (cases ctl) (simp_all add: build_inv_def)
  qed
qed

lemma building_ok_single:
  assumes "trace st = []" and dk: "distinct (map fst dag)" and nm: "\<forall>(n, t) \<in> set dag. getName t = n"
    and "distinct ord" and "set ord = fst ` set dag"
  shows "building_ok dag (trace (snd (executeSingleThreaded cfg col ord dag st)))"
  unfolding executeSingleThreaded_def Let_def
proof (rule build_inv_singleLoop[where fin = "{}"])
  show "build_inv dag {} (st\<lparr>stats := (stats st)\<lparr>totalTargets := length (topologicalSort ord dag)\<rparr>\<rparr>)"
    using assms(1) by (simp add: build_inv_def building_ok_def ordered_by_def)
  show "\<forall>n \<in> set (topologicalSort ord dag). \<exists>target. getTarget dag n = Some target \<and> getName target = n"
  proof
    fix n assume "n \<in> set (topologicalSort ord dag)"
    then have "n \<in> fst ` set dag" using topologicalSort_sound(2)[OF dk assms(4,5)] by blast
    then obtain t where "(n, t) \<in> set dag" by force
    then show "\<exists>target. getTarget dag n = Some target \<and> getName target = n"
      using dk nm by (auto simp: getTarget_def)
  qed
  show "\<forall>j<length (topologicalSort ord dag).
          set (dependenciesOf dag (topologicalSort ord dag ! j)) \<subseteq> {} \<union> set (take j (topologicalSort ord dag))"
    using topologicalSort_sound(4)[OF dk assms(4,5)] by simp
qed

lemma isCompleted_iff: "isCompleted m k \<longleftrightarrow> map_of m k = Some True"
  by (cases "map_of m k") (simp_all add: isCompleted_def flagRead_def)

lemma map_of_flagWrite: "map_of (flagWrite m k v) = (map_of m)(k \<mapsto> v)"
  by (induction m) auto

lemma isCompleted_flagWrite: "isCompleted (flagWrite m k v) x \<longleftrightarrow> (if x = k then v else isCompleted m x)"
  by (simp add: isCompleted_iff map_of_flagWrite)

lemma flagRead_completed:
  assumes "flagRead m k = (b, m')"
  shows "b = isCompleted m k" and "isCompleted m' x = isCompleted m x"
proof -
  show "b = isCompleted m k" using assms by (simp add: isCompleted_def)
  show "isCompleted m' x = isCompleted m x"
  proof (cases "map_of m k")
    case None
    then have "m' = m @ [(k, False)]" using assms by (simp add: flagRead_def)
    then show ?thesis by (cases "map_of m x") (simp_all add: isCompleted_iff map_add_def)
  next
    case (Some v)
    then show ?thesis using assms by (simp add: flagRead_def)
  qed
qed

lemma canExecuteDeps_completed:
  "canExecuteDeps deps cf = (b, cf') \<Longrightarrow>
     (\<forall>x. isCompleted cf' x = isCompleted cf x) \<and> (b \<longrightarrow> (\<forall>d \<in> set deps. isCompleted cf d))"
proof (induction deps arbitrary: cf)
  case Nil
  then show ?case by simp
next
  case (Cons dep deps)
  obtain v cf1 where r: "flagRead cf dep = (v, cf1)" by (cases "flagRead cf dep")
  note fr = flagRead_completed[OF r]
  show ?case
  proof (cases v)
    case False
    then show ?thesis using Cons.prems r fr by auto
  next
    case True
    then have "canExecuteDeps deps cf1 = (b, cf')" using Cons.prems r by simp
    from Cons.IH[OF this] show ?thesis using fr True by simp
  qed
qed

lemma canExecute_completed:
  assumes "canExecute t (cf, pf) = (b, cf', pf')"
  shows "(\<forall>x. isCompleted cf' x = isCompleted cf x) \<and> (b \<longrightarrow> (\<forall>d \<in> set (getDependencies t). isCompleted cf d))"
proof -
  obtain v cf1 where r: "canExecuteDeps (getDependencies t) cf = (v, cf1)"
    by (cases "canExecuteDeps (getDependencies t) cf")
  note ce = canExecuteDeps_completed[OF r]
  show ?thesis
  proof (cases v)
    case False
    then show ?thesis using assms r ce by (simp add: canExecute_def)
  next
    case True
    obtain busy pf1 where "flagRead pf (getName t) = (busy, pf1)" by (cases "flagRead pf (getName t)")
    then show ?thesis using assms r ce True by (simp add: canExecute_def)
  qed
qed

lemma findReady_completed:
  "findReady dag names (cf, pf) = (r, cf', pf') \<Longrightarrow>
     (\<forall>x. isCompleted cf' x = isCompleted cf x) \<and>
     (\<forall>name. r = Some name \<longrightarrow> (\<forall>d \<in> set (dependenciesOf dag name). isCompleted cf d))"
proof (induction names arbitrary: cf pf)
  case Nil
  then show ?case by simp
next
  case (Cons name names)
  show ?case
  proof (cases "getTarget dag name")
    case None
    then have "findReady dag names (cf, pf) = (r, cf', pf')" using Cons.prems by simp
    from Cons.IH[OF this] show ?thesis .
  next
    case (Some t)
    obtain v cf1 where fr: "flagRead cf name = (v, cf1)" by (cases "flagRead cf name")
    note f1 = flagRead_completed[OF fr]
    show ?thesis
    proof (cases v)
      case True
      then have "findReady dag names (cf1, pf) = (r, cf', pf')" using Cons.prems Some fr by simp
      from Cons.IH[OF this] show ?thesis using f1(2) by simp
    next
      case False
      obtain b cf2 pf2 where ce: "canExecute t (cf1, pf) = (b, cf2, pf2)"
        by (cases "canExecute t (cf1, pf)")
      note c2 = canExecute_completed[OF ce]
      show ?thesis
      proof (cases b)
        case True
        then have "r = Some name" "cf' = cf2" using Cons.prems Some fr False ce by simp_all
        moreover have "dependenciesOf dag name = getDependencies t"
          using Some by (simp add: dependenciesOf_def getTarget_def)
        ultimately show ?thesis using c2 True f1(2) by simp
      next
        case nb: False
        then have "findReady dag names (cf2, pf2) = (r, cf', pf')" using Cons.prems Some fr False ce by simp
        from Cons.IH[OF this] show ?thesis using c2 f1(2) by simp
      qed
    qed
  qed
qed

lemma waitPredicate_completed:
  assumes "waitPredicate cfg dag order s = (b, cf', pf')"
  shows "isCompleted cf' x = isCompleted (completed s) x"
proof (cases "(failed s \<and> stopOnError cfg) \<or> cancelled (env (shared s)) \<or> allDone (completed s)")
  case True
  then have "cf' = completed s" using assms by (auto simp: waitPredicate_def split: if_splits)
  then show ?thesis by simp
next
  case False
  obtain r cf1 pf1 where f: "findReady dag order (completed s, inProgress s) = (r, cf1, pf1)"
    by (cases "findReady dag order (completed s, inProgress s)")
  then have "cf' = cf1" using assms False by (auto simp: waitPredicate_def)
  then show ?thesis using findReady_completed[OF f] by simp
qed

lemma worker_build_ok_mono:
  "set tr \<subseteq> set tr' \<Longrightarrow> worker_build_ok dag tr w \<Longrightarrow> worker_build_ok dag tr' w"
  by (cases w) (simp_all add: worker_build_ok_def, (blast intro: finished_mono)+)

lemma mt_build_inv_update:
  assumes "mt_build_inv dag s" and "building_ok dag (trace (shared s'))"
    and "set (trace (shared s)) \<subseteq> set (trace (shared s'))"
    and "\<forall>n. isCompleted (completed s') n \<longrightarrow> isCompleted (completed s) n \<or> finished n (trace (shared s'))"
    and "worker_build_ok dag (trace (shared s')) w'"
    and "workers s' = (workers s)[i := w']"
  shows "mt_build_inv dag s'"
proof -
  have w: "worker_build_ok dag (trace (shared s')) w" if "w \<in> set (workers s')" for w
  proof -
    have "w = w' \<or> w \<in> set (workers s)"
      using that assms(6) set_update_subset_insert[of "workers s" i w'] by auto
    then show ?thesis
      using assms(1,3,5) worker_build_ok_mono[of "trace (shared s)" "trace (shared s')" dag w]
      by (auto simp: mt_build_inv_def)
  qed
  have c: "finished n (trace (shared s'))" if "isCompleted (completed s') n" for n
  proof -
    have "isCompleted (completed s) n \<or> finished n (trace (shared s'))" using that assms(4) by blast
    then show ?thesis using assms(1,3) finished_mono[of "trace (shared s)" "trace (shared s')" n]
      by (auto simp: mt_build_inv_def)
  qed
  show ?thesis using assms(2) w c by (simp add: mt_build_inv_def)
qed

lemma mt_build_inv_same:
  assumes "mt_build_inv dag s" and "shared s' = shared s" and "workers s' = workers s"
    and "\<forall>n. isCompleted (completed s') n = isCompleted (completed s) n"
  shows "mt_build_inv dag s'"
  using assms by (simp add: mt_build_inv_def)

lemma mt_build_inv_workerStep:
  assumes inv: "mt_build_inv dag s"
    and nm: "\<forall>name target. getTarget dag name = Some target \<longrightarrow> getName target = name"
  shows "mt_build_inv dag (workerStep cfg col dag order i s)"
proof (cases "length (workers s) \<le> i")
  case True
  then show ?thesis using inv by (simp add: workerStep_def)
next
  case False
  then have i: "i < length (workers s)" by simp
  have bo: "building_ok dag (trace (shared s))" using inv by (simp add: mt_build_inv_def)
  have wi: "worker_build_ok dag (trace (shared s)) (workers s ! i)"
    using inv i by (simp add: mt_build_inv_def)
  show ?thesis
  proof (cases "workers s ! i")
    case AtTop
    show ?thesis
      by (rule mt_build_inv_update[OF inv, where i = i and w' = "if cancelled (env (shared s)) then Finished else Waiting"])
         (use False AtTop bo in \<open>auto simp: workerStep_def setWorker_def worker_build_ok_def\<close>)
  next
    case Waiting
    obtain b cf pf where p: "waitPredicate cfg dag order s = (b, cf, pf)"
      by (cases "waitPredicate cfg dag order s")
    note wc = waitPredicate_completed[OF p]
    show ?thesis
    proof (cases "mtx s \<noteq> None")
      case True
      then show ?thesis using inv False Waiting by (simp add: workerStep_def)
    next
      case free: False
      show ?thesis
      proof (cases b)
        case True
        show ?thesis
          by (rule mt_build_inv_update[OF inv, where i = i and w' = Woken])
             (use False Waiting p free True bo wc in \<open>auto simp: workerStep_def setWorker_def worker_build_ok_def\<close>)
      next
        case nb: False
        show ?thesis
          by (rule mt_build_inv_same[OF inv])
             (use False Waiting p free nb wc in \<open>auto simp: workerStep_def\<close>)
      qed
    qed
  next
    case Woken
    obtain r cf pf where p: "findReady dag order (completed s, inProgress s) = (r, cf, pf)"
      by (cases "findReady dag order (completed s, inProgress s)")
    note fc = findReady_completed[OF p]
    have dn: "\<forall>d \<in> set (dependenciesOf dag name). finished d (trace (shared s))" if "r = Some name" for name
      using fc that inv by (simp add: mt_build_inv_def)
    show ?thesis
    proof (cases "cancelled (env (shared s)) \<or> (failed s \<and> stopOnError cfg) \<or> allDone (completed s)")
      case True
      show ?thesis
        by (rule mt_build_inv_update[OF inv, where i = i and w' = Finished])
           (use False Woken True bo in \<open>auto simp: workerStep_def setWorker_def worker_build_ok_def\<close>)
    next
      case go: False
      show ?thesis
      proof (cases r)
        case None
        show ?thesis
          by (rule mt_build_inv_update[OF inv, where i = i and w' = "Picked []"])
             (use False Woken go p None bo fc in \<open>auto simp: workerStep_def setWorker_def worker_build_ok_def\<close>)
      next
        case (Some name)
        show ?thesis
          by (rule mt_build_inv_update[OF inv, where i = i and w' = "Picked name"])
             (use False Woken go p Some bo fc dn[OF Some] in
               \<open>auto simp: workerStep_def setWorker_def worker_build_ok_def\<close>)
      qed
    qed
  next
    case (Picked name)
    show ?thesis
    proof (cases "name = [] \<or> getTarget dag name = None")
      case True
      show ?thesis
        by (rule mt_build_inv_update[OF inv, where i = i and w' = AtTop])
           (use False Picked True bo in \<open>auto simp: workerStep_def setWorker_def worker_build_ok_def\<close>)
    next
      case go: False
      then obtain target where t: "getTarget dag name = Some target" and ne: "name \<noteq> []" by auto
      have dn: "\<forall>d \<in> set (dependenciesOf dag name). finished d (trace (shared s))"
        using wi Picked ne by (simp add: worker_build_ok_def)
      let ?st = "notify col name (Suc (processedCount s)) (totalTargets (stats (shared s))) ''BUILDING'' (shared s)"
      have b2: "building_ok dag (trace ?st)"
        using bo dn by (cases "progressCallback col") (simp_all add: trace_notify building_ok_snoc)
      have s2: "set (trace (shared s)) \<subseteq> set (trace ?st)"
        by (cases "progressCallback col") (auto simp: trace_notify)
      show ?thesis
        by (rule mt_build_inv_update[OF inv, where i = i and w' = "Checking name"])
           (use False Picked t ne b2 s2 in \<open>auto simp: workerStep_def setWorker_def worker_build_ok_def\<close>)
    qed
  next
    case (Checking name)
    show ?thesis
    proof (cases "getTarget dag name")
      case None
      show ?thesis
        by (rule mt_build_inv_update[OF inv, where i = i and w' = AtTop])
           (use False Checking None bo in \<open>auto simp: workerStep_def setWorker_def worker_build_ok_def\<close>)
    next
      case (Some target)
      have k: "getName target = name" using nm Some by blast
      show ?thesis
      proof (cases "up_to_date target (shared s)")
        case True
        show ?thesis
          by (rule mt_build_inv_update[OF inv, where i = i and w' = "Counting name Skipped"])
             (use False Checking Some k True bo in
               \<open>auto simp: workerStep_def setWorker_def worker_build_ok_def up_to_date_code[symmetric]
                    building_ok_snoc finished_status\<close>)
      next
        case nu: False
        show ?thesis
          by (rule mt_build_inv_update[OF inv, where i = i and w' = "Running name"])
             (use False Checking Some k nu bo in
               \<open>auto simp: workerStep_def setWorker_def worker_build_ok_def up_to_date_code[symmetric]
                    building_ok_snoc\<close>)
      qed
    qed
  next
    case (Running name)
    show ?thesis
    proof (cases "getTarget dag name")
      case None
      show ?thesis
        by (rule mt_build_inv_update[OF inv, where i = i and w' = AtTop])
           (use False Running None bo in \<open>auto simp: workerStep_def setWorker_def worker_build_ok_def\<close>)
    next
      case (Some target)
      obtain ok st where r: "runCommand cfg col target (shared s) = (ok, st)"
        by (cases "runCommand cfg col target (shared s)")
      have b2: "building_ok dag (trace st)"
        using r bo by (cases rule: runCommand_cases[of cfg col target "shared s"]) (auto simp: building_ok_snoc)
      note t = runCommand_trace[OF r]
      show ?thesis
        by (rule mt_build_inv_update[OF inv, where i = i and w' = "if ok then Signing name else Failing name"])
           (use False Running Some r b2 t in \<open>auto simp: workerStep_def setWorker_def worker_build_ok_def\<close>)
    qed
  next
    case (Signing name)
    show ?thesis
    proof (cases "getTarget dag name")
      case None
      show ?thesis
        by (rule mt_build_inv_update[OF inv, where i = i and w' = AtTop])
           (use False Signing None bo in \<open>auto simp: workerStep_def setWorker_def worker_build_ok_def\<close>)
    next
      case (Some target)
      show ?thesis
        by (rule mt_build_inv_update[OF inv, where i = i and w' = "Succeeding name"])
           (use False Signing Some bo in
             \<open>auto simp: workerStep_def setWorker_def worker_build_ok_def building_ok_snoc\<close>)
    qed
  next
    case (Succeeding name)
    show ?thesis
    proof (cases "getTarget dag name")
      case None
      show ?thesis
        by (rule mt_build_inv_update[OF inv, where i = i and w' = AtTop])
           (use False Succeeding None bo in \<open>auto simp: workerStep_def setWorker_def worker_build_ok_def\<close>)
    next
      case (Some target)
      have k: "getName target = name" using nm Some by blast
      show ?thesis
        by (rule mt_build_inv_update[OF inv, where i = i and w' = "Counting name Built"])
           (use False Succeeding Some k bo in
             \<open>auto simp: workerStep_def setWorker_def worker_build_ok_def building_ok_snoc finished_status\<close>)
    qed
  next
    case (Failing name)
    show ?thesis
    proof (cases "getTarget dag name")
      case None
      show ?thesis
        by (rule mt_build_inv_update[OF inv, where i = i and w' = AtTop])
           (use False Failing None bo in \<open>auto simp: workerStep_def setWorker_def worker_build_ok_def\<close>)
    next
      case (Some target)
      have k: "getName target = name" using nm Some by blast
      show ?thesis
        by (rule mt_build_inv_update[OF inv, where i = i and w' = "Counting name Failed"])
           (use False Failing Some k bo in
             \<open>auto simp: workerStep_def setWorker_def worker_build_ok_def building_ok_snoc finished_status\<close>)
    qed
  next
    case (Counting name oc)
    show ?thesis
    proof (cases "mtx s \<noteq> None")
      case True
      then show ?thesis using inv False Counting by (simp add: workerStep_def)
    next
      case nb: False
      show ?thesis
        by (rule mt_build_inv_update[OF inv, where i = i and w' = "Completing name (oc \<noteq> Failed)"])
           (use False Counting nb bo wi in \<open>auto simp: workerStep_def setWorker_def worker_build_ok_def\<close>)
    qed
  next
    case (Completing name success)
    show ?thesis
    proof (cases "mtx s \<noteq> None")
      case True
      then show ?thesis using inv False Completing by (simp add: workerStep_def)
    next
      case nb: False
      have f: "finished name (trace (shared s))" using wi Completing by (simp add: worker_build_ok_def)
      show ?thesis
        by (rule mt_build_inv_update[OF inv, where i = i and w' = AtTop])
           (use False Completing nb bo f in
             \<open>auto simp: workerStep_def setWorker_def worker_build_ok_def isCompleted_flagWrite split: if_splits\<close>)
    qed
  next
    case Finished
    then show ?thesis using inv False by (simp add: workerStep_def)
  qed
qed

lemma mt_build_inv_step:
  assumes "mt_build_inv dag s"
    and "\<forall>name target. getTarget dag name = Some target \<longrightarrow> getName target = name"
  shows "mt_build_inv dag (mtStep cfg col dag order s a)"
proof (cases a)
  case (Worker i)
  then show ?thesis using mt_build_inv_workerStep[OF assms] by simp
next
  case Cancel
  then show ?thesis using assms(1) by (simp add: mt_build_inv_def setCancelled_def)
next
  case ResetCancelled
  then show ?thesis using assms(1) by (simp add: mt_build_inv_def setCancelled_def)
qed

lemma mt_build_inv_run:
  "mt_build_inv dag s \<Longrightarrow>
   \<forall>name target. getTarget dag name = Some target \<longrightarrow> getName target = name \<Longrightarrow>
   mt_build_inv dag (foldl (mtStep cfg col dag order) s schedule)"
  by (induction schedule arbitrary: s) (simp_all add: mt_build_inv_step)

lemma isCompleted_init: "isCompleted (fold (\<lambda>name m. flagWrite m name False) names m) x \<Longrightarrow> isCompleted m x"
proof (induction names arbitrary: m)
  case Nil
  then show ?case by simp
next
  case (Cons a names)
  then have "isCompleted (flagWrite m a False) x" by simp
  then show ?case by (simp add: isCompleted_flagWrite split: if_splits)
qed

lemma building_ok_multi:
  assumes "trace st = []" and nm: "\<forall>(n, t) \<in> set dag. getName t = n"
  shows "building_ok dag (trace (snd (executeMultiThreaded cfg col ord dag schedule st)))"
proof -
  have nm': "\<forall>name target. getTarget dag name = Some target \<longrightarrow> getName target = name"
    using nm by (auto simp: getTarget_def dest: map_of_SomeD)
  have e: "\<not> isCompleted [] x" for x by (simp add: isCompleted_iff)
  have "mt_build_inv dag (mtInit cfg (topologicalSort ord dag) st)"
    using assms(1) isCompleted_init[of "topologicalSort ord dag" "[]"] e
    by (auto simp: mt_build_inv_def mtInit_def building_ok_def ordered_by_def worker_build_ok_def)
  from mt_build_inv_run[OF this nm'] show ?thesis
    by (simp add: executeMultiThreaded_def Let_def mt_build_inv_def)
qed

lemma replay_untouched:
  "\<forall>sg. CacheSet n sg \<notin> set tr \<Longrightarrow> signatures (replay tr c) n = signatures c n"
proof (induction tr rule: rev_induct)
  case Nil
  then show ?case by (simp add: replay_def)
next
  case (snoc e tr)
  then have ih: "signatures (replay tr c) n = signatures c n" by simp
  have "signatures (applyEvent e (replay tr c)) n = signatures (replay tr c) n"
  proof (cases e)
    case (CacheSet m sg)
    then have "m \<noteq> n" using snoc.prems by auto
    then show ?thesis using CacheSet by (simp add: applyEvent_def setSignature_def)
  qed (simp_all add: applyEvent_def)
  then show ?case using ih by (simp add: replay_snoc)
qed

lemma cache_writes_ok_mem:
  assumes "cache_writes_ok lenient tr" and "CacheSet n sg \<in> set tr"
  shows "Status ''BUILD'' n \<in> set tr \<and> (\<not> lenient \<longrightarrow> (\<exists>c. Ran n c True \<in> set tr))"
proof -
  from assms(2) obtain i where i: "i < length tr" "tr ! i = CacheSet n sg"
    by (auto simp: in_set_conv_nth)
  with assms(1) have b: "Status ''BUILD'' n \<in> set (take i tr)"
    and r: "\<not> lenient \<longrightarrow> (\<exists>c. Ran n c True \<in> set (take i tr))"
    unfolding cache_writes_ok_def by blast+
  have s: "set (take i tr) \<subseteq> set tr" by (rule set_take_subset)
  show ?thesis using b r s by blast
qed

lemma executeTarget_cache_kept:
  assumes "\<not> fst (executeTarget cfg col target st) \<or> up_to_date target st"
  shows "cacheOf (snd (executeTarget cfg col target st)) = cacheOf st"
proof (cases "cancelled (env st)")
  case True
  then show ?thesis by (simp add: executeTarget_def)
next
  case nc: False
  show ?thesis
  proof (cases "up_to_date target st")
    case True
    then show ?thesis using nc by (simp add: executeTarget_def up_to_date_code[symmetric])
  next
    case False
    show ?thesis
    proof (cases rule: runCommand_cases[of cfg col target "printStatus ''BUILD'' (getName target) st"])
      case dry
      then show ?thesis using assms nc False by (simp add: executeTarget_def up_to_date_code[symmetric])
    next
      case (ran ok w)
      then show ?thesis using assms nc False
        by (cases ok) (simp_all add: executeTarget_def up_to_date_code[symmetric])
    qed
  qed
qed

lemma cache_inv_exec:
  assumes "trace st = []"
  shows "cache_inv cfg (cacheOf st) (snd (executeWithStats cfg col ord dag schedule st))"
proof (cases "numThreads cfg \<le> 1")
  case True
  obtain ok st' where e: "executeSingleThreaded cfg col ord dag st = (ok, st')"
    by (cases "executeSingleThreaded cfg col ord dag st")
  then show ?thesis using True cache_inv_single[OF assms, of cfg col ord dag]
    by (simp add: executeWithStats_def)
next
  case False
  then show ?thesis using cache_inv_multi[OF assms, of cfg col ord dag schedule]
    by (simp add: executeWithStats_def)
qed

lemma tgt_sel:
  "getName (tgt n ds) = n" "getInputs (tgt n ds) = []" "getOutputs (tgt n ds) = []"
  "getCommand (tgt n ds) = []" "getDependencies (tgt n ds) = ds"
  by (simp_all add: tgt_def)

lemma topologicalSort_single: "topologicalSort [n] [(n, tgt n [])] = [n]"
  by (simp add: topologicalSort_def countInDegree_def initInDegree_def counter_def tgt_def
        processQueue.simps reduceDependent_def Let_def)

lemma topologicalSort_pair:
  "d \<noteq> t \<Longrightarrow> topologicalSort [d, t] [(d, tgt d []), (t, tgt t [d])] = [d, t]"
  by (simp add: topologicalSort_def countInDegree_def initInDegree_def counter_def tgt_def
        processQueue.simps reduceDependent_def Let_def)

text \<open>
  Claim C3, as amended. In every execution that starts with nothing emitted, under either
  strategy, every schedule of the workers and every configuration: the cache at the end is
  the cache at the start with the writes of the trace applied in order; every write of an
  entry comes after the line BUILD of its target and, unless the configuration is a dry
  run, after a successful run of that target's command; so the entry of a target that
  was not built (skipped, or never reached), or whose command did not succeed outside a
  dry run, is what it was before. A call of \<open>executeTarget\<close> that returns false (cancelled,
  or the command failed) or that finds its target up to date leaves the whole cache as
  it was.
\<close>

theorem cache_written_only_after_build:
  assumes "trace st = []"
  shows "cacheOf (snd (executeWithStats cfg col ord dag schedule st))
           = replay (trace (snd (executeWithStats cfg col ord dag schedule st))) (cacheOf st) \<and>
         cache_writes_ok (dryRun cfg) (trace (snd (executeWithStats cfg col ord dag schedule st))) \<and>
         (\<forall>n. Status ''BUILD'' n \<notin> set (trace (snd (executeWithStats cfg col ord dag schedule st))) \<or>
               (\<not> dryRun cfg \<and>
                (\<forall>c. Ran n c True \<notin> set (trace (snd (executeWithStats cfg col ord dag schedule st)))))
            \<longrightarrow> signatures (cacheOf (snd (executeWithStats cfg col ord dag schedule st))) n
                  = signatures (cacheOf st) n) \<and>
         (\<not> fst (executeTarget cfg col target st1) \<or> up_to_date target st1
            \<longrightarrow> cacheOf (snd (executeTarget cfg col target st1)) = cacheOf st1)"
proof -
  let ?st' = "snd (executeWithStats cfg col ord dag schedule st)"
  have inv: "cache_inv cfg (cacheOf st) ?st'" using assms by (rule cache_inv_exec)
  then have r: "cacheOf ?st' = replay (trace ?st') (cacheOf st)"
    and w: "cache_writes_ok (dryRun cfg) (trace ?st')"
    by (simp_all add: cache_inv_def)
  have "signatures (cacheOf ?st') n = signatures (cacheOf st) n"
    if h: "Status ''BUILD'' n \<notin> set (trace ?st') \<or>
           (\<not> dryRun cfg \<and> (\<forall>c. Ran n c True \<notin> set (trace ?st')))" for n
  proof -
    have "\<forall>sg. CacheSet n sg \<notin> set (trace ?st')"
    proof (intro allI notI)
      fix sg assume "CacheSet n sg \<in> set (trace ?st')"
      from cache_writes_ok_mem[OF w this] h show False by blast
    qed
    from replay_untouched[OF this] r show ?thesis by simp
  qed
  then show ?thesis using r w executeTarget_cache_kept[of cfg col target st1] by blast
qed

theorem cache_written_only_after_build_witness:
  "trace (freshState noFiles False (Cache_ctor ''.mimir'')) = [] \<and>
   trace (snd (executeWithStats ExecutorConfig_ctor (quietRunner False) [''a''] [(''a'', tgt ''a'' [])] []
                 (freshState noFiles False (Cache_ctor ''.mimir''))))
     = [Status ''BUILD'' ''a'', Ran ''a'' [] False, Status ''FAILED'' ''a''] \<and>
   signatures (cacheOf (snd (executeWithStats ExecutorConfig_ctor (quietRunner False) [''a''] [(''a'', tgt ''a'' [])] []
                 (freshState noFiles False (Cache_ctor ''.mimir''))))) ''a''
     = signatures (cacheOf (freshState noFiles False (Cache_ctor ''.mimir''))) ''a'' \<and>
   cache_writes_ok False
     (trace (snd (executeWithStats ExecutorConfig_ctor (quietRunner False) [''a''] [(''a'', tgt ''a'' [])] []
                 (freshState noFiles False (Cache_ctor ''.mimir''))))) \<and>
   fst (executeTarget ExecutorConfig_ctor (quietRunner False) (tgt ''a'' [])
          (freshState noFiles False (Cache_ctor ''.mimir''))) = False \<and>
   cacheOf (snd (executeTarget ExecutorConfig_ctor (quietRunner False) (tgt ''a'' [])
          (freshState noFiles False (Cache_ctor ''.mimir''))))
     = cacheOf (freshState noFiles False (Cache_ctor ''.mimir''))"
proof -
  let ?st = "freshState noFiles False (Cache_ctor ''.mimir'')"
  let ?st' = "snd (executeWithStats ExecutorConfig_ctor (quietRunner False) [''a''] [(''a'', tgt ''a'' [])] [] ?st)"
  have h: "trace ?st = []" by (simp add: freshState_def)
  have e: "trace ?st' = [Status ''BUILD'' ''a'', Ran ''a'' [] False, Status ''FAILED'' ''a'']"
    by (simp add: executeWithStats_def ExecutorConfig_ctor_def executeSingleThreaded_def
          topologicalSort_single singleBody_def getTarget_def notify_def quietRunner_def
          runCommand_def printStatus_def isOutOfDate_def needsRebuild_def Cache_ctor_def
          freshState_def noFiles_def BuildStats_ctor_def tgt_sel Let_def)
  note t = cache_written_only_after_build[OF h, where cfg = ExecutorConfig_ctor and col = "quietRunner False"
      and ord = "[''a'']" and dag = "[(''a'', tgt ''a'' [])]" and schedule = "[]"
      and target = "tgt ''a'' []" and ?st1.0 = ?st]
  have f: "fst (executeTarget ExecutorConfig_ctor (quietRunner False) (tgt ''a'' []) ?st) = False"
    by (simp add: executeTarget_def ExecutorConfig_ctor_def quietRunner_def runCommand_def
          printStatus_def isOutOfDate_def needsRebuild_def Cache_ctor_def freshState_def tgt_sel)
  have d: "\<not> dryRun ExecutorConfig_ctor" by (simp add: ExecutorConfig_ctor_def)
  have n: "\<forall>c. Ran ''a'' c True \<notin> set (trace ?st')" by (simp add: e)
  from t d have w: "cache_writes_ok False (trace ?st')" by simp
  from t d n have s: "signatures (cacheOf ?st') ''a'' = signatures (cacheOf ?st) ''a''" by blast
  from t f have k: "cacheOf (snd (executeTarget ExecutorConfig_ctor (quietRunner False) (tgt ''a'' []) ?st))
     = cacheOf ?st" by simp
  from h e s w f k show ?thesis by blast
qed

text \<open>
  Claim C3 as stated fails in a dry run: \<open>runCommand\<close> answers success without calling the
  runner, and the entry is written all the same.
\<close>

theorem cache_written_without_run_counterexample:
  "trace (snd (executeWithStats (ExecutorConfig_ctor\<lparr>dryRun := True\<rparr>) (quietRunner True) [''a'']
                 [(''a'', tgt ''a'' [])] [] (freshState noFiles False (Cache_ctor ''.mimir''))))
     = [Status ''BUILD'' ''a'', CacheSet ''a'' (computeTargetSignature noFiles [] []), Status ''SUCCESS'' ''a''] \<and>
   signatures (cacheOf (freshState noFiles False (Cache_ctor ''.mimir''))) ''a'' = None \<and>
   signatures (cacheOf (snd (executeWithStats (ExecutorConfig_ctor\<lparr>dryRun := True\<rparr>) (quietRunner True) [''a'']
                 [(''a'', tgt ''a'' [])] [] (freshState noFiles False (Cache_ctor ''.mimir''))))) ''a''
     = Some (computeTargetSignature noFiles [] []) \<and>
   \<not> cache_writes_ok False
       (trace (snd (executeWithStats (ExecutorConfig_ctor\<lparr>dryRun := True\<rparr>) (quietRunner True) [''a'']
                 [(''a'', tgt ''a'' [])] [] (freshState noFiles False (Cache_ctor ''.mimir'')))))"
proof -
  let ?st = "freshState noFiles False (Cache_ctor ''.mimir'')"
  let ?st' = "snd (executeWithStats (ExecutorConfig_ctor\<lparr>dryRun := True\<rparr>) (quietRunner True) [''a'']
                 [(''a'', tgt ''a'' [])] [] ?st)"
  let ?tr = "[Status ''BUILD'' ''a'', CacheSet ''a'' (computeTargetSignature noFiles [] []), Status ''SUCCESS'' ''a'']"
  have e: "trace ?st' = ?tr"
    by (simp add: executeWithStats_def ExecutorConfig_ctor_def executeSingleThreaded_def
          topologicalSort_single singleBody_def getTarget_def notify_def quietRunner_def
          runCommand_def printStatus_def storeSignature_def isOutOfDate_def needsRebuild_def
          Cache_ctor_def freshState_def noFiles_def BuildStats_ctor_def tgt_sel Let_def)
  have c: "signatures (cacheOf ?st') ''a'' = Some (computeTargetSignature noFiles [] [])"
    by (simp add: executeWithStats_def ExecutorConfig_ctor_def executeSingleThreaded_def
          topologicalSort_single singleBody_def getTarget_def notify_def quietRunner_def
          runCommand_def printStatus_def storeSignature_def isOutOfDate_def needsRebuild_def
          setSignature_def Cache_ctor_def freshState_def noFiles_def BuildStats_ctor_def tgt_sel Let_def)
  have z: "signatures (cacheOf ?st) ''a'' = None" by (simp add: freshState_def Cache_ctor_def)
  have "\<not> cache_writes_ok False ?tr"
  proof
    assume "cache_writes_ok False ?tr"
    from cache_writes_ok_mem[OF this, of "''a''" "computeTargetSignature noFiles [] []"]
    show False by simp
  qed
  then have n: "\<not> cache_writes_ok False (trace ?st')" unfolding e .
  from e z c n show ?thesis by blast
qed

text \<open>
  Claim C5, at an input where the code breaks it. Two workers, one target that needs no
  build step to fail, and \<open>cancel()\<close> called by another thread before the workers look at
  the flag (or before the call): every worker returns at its first check, nothing has
  failed, and \<open>executeMultiThreaded\<close> returns \<open>!failed\<close>, which is true. The single-threaded
  loop returns false on the same graph.
\<close>

theorem cancelled_parallel_build_succeeds:
  "fst (executeWithStats (ExecutorConfig_ctor\<lparr>numThreads := 2\<rparr>) (quietRunner True) [''a'']
          [(''a'', tgt ''a'' [])] [Cancel, Worker 0, Worker 1]
          (freshState noFiles False (Cache_ctor ''.mimir''))) = Some True \<and>
   fst (executeWithStats (ExecutorConfig_ctor\<lparr>numThreads := 2\<rparr>) (quietRunner True) [''a'']
          [(''a'', tgt ''a'' [])] [Worker 0, Worker 1]
          (freshState noFiles True (Cache_ctor ''.mimir''))) = Some True \<and>
   fst (executeWithStats ExecutorConfig_ctor (quietRunner True) [''a'']
          [(''a'', tgt ''a'' [])] []
          (freshState noFiles True (Cache_ctor ''.mimir''))) = Some False"
proof -
  have 1: "fst (executeWithStats (ExecutorConfig_ctor\<lparr>numThreads := 2\<rparr>) (quietRunner True) [''a'']
          [(''a'', tgt ''a'' [])] [Cancel, Worker 0, Worker 1]
          (freshState noFiles False (Cache_ctor ''.mimir''))) = Some True"
    by (simp add: executeWithStats_def ExecutorConfig_ctor_def executeMultiThreaded_def
          topologicalSort_single mtInit_def workerStep_def setWorker_def setCancelled_def
          freshState_def Let_def numeral_2_eq_2)
  have 2: "fst (executeWithStats (ExecutorConfig_ctor\<lparr>numThreads := 2\<rparr>) (quietRunner True) [''a'']
          [(''a'', tgt ''a'' [])] [Worker 0, Worker 1]
          (freshState noFiles True (Cache_ctor ''.mimir''))) = Some True"
    by (simp add: executeWithStats_def ExecutorConfig_ctor_def executeMultiThreaded_def
          topologicalSort_single mtInit_def workerStep_def setWorker_def setCancelled_def
          freshState_def Let_def numeral_2_eq_2)
  have 3: "fst (executeWithStats ExecutorConfig_ctor (quietRunner True) [''a'']
          [(''a'', tgt ''a'' [])] []
          (freshState noFiles True (Cache_ctor ''.mimir''))) = Some False"
    by (simp add: executeWithStats_def ExecutorConfig_ctor_def executeSingleThreaded_def
          topologicalSort_single freshState_def Let_def)
  from 1 2 3 show ?thesis by blast
qed

text \<open>
  Claim C4. Wherever the executor processes a target (\<open>executeTarget\<close> when not
  cancelled, the body of the single-threaded loop, the step of a worker thread that checks
  the target), the target is reported UP-TO-DATE with no run of its command exactly when
  every declared output can be opened and \<open>needsRebuild\<close> is false for its current
  signature; the worker then goes on to count it as skipped, and otherwise on to the
  command. A missing output alone makes the target not up to date, whatever the cache
  holds, and \<open>executeTarget\<close> then prints BUILD and, outside a dry run, calls the runner.
\<close>

theorem skip_iff_outputs_and_signature:
  "(\<not> cancelled (env st) \<longrightarrow>
      (skipped_without_run target (emitted st (snd (executeTarget cfg col target st)))
         \<longleftrightarrow> up_to_date target st)) \<and>
   (getTarget dag name = Some target \<longrightarrow>
      (skipped_without_run target (emitted st (snd (singleBody cfg col dag name current st)))
         \<longleftrightarrow> up_to_date target (notify col name current (totalTargets (stats st)) ''BUILDING'' st))) \<and>
   (i < length (workers s) \<and> workers s ! i = Checking name \<and> getTarget dag name = Some target \<longrightarrow>
      (skipped_without_run target (emitted (shared s) (shared (workerStep cfg col dag order i s)))
         \<longleftrightarrow> up_to_date target (shared s)) \<and>
      (workers (workerStep cfg col dag order i s) ! i = Counting name Skipped
         \<longleftrightarrow> up_to_date target (shared s)) \<and>
      (workers (workerStep cfg col dag order i s) ! i = Running name
         \<longleftrightarrow> \<not> up_to_date target (shared s))) \<and>
   (path \<in> set (getOutputs target) \<and> contents (files (env st)) path = None \<longrightarrow>
      \<not> up_to_date target st) \<and>
   (\<not> cancelled (env st) \<and> path \<in> set (getOutputs target) \<and> contents (files (env st)) path = None \<longrightarrow>
      Status ''BUILD'' (getName target) \<in> set (emitted st (snd (executeTarget cfg col target st))) \<and>
      Status ''UP-TO-DATE'' (getName target) \<notin> set (emitted st (snd (executeTarget cfg col target st))) \<and>
      (\<not> dryRun cfg \<longrightarrow> (\<exists>b. Ran (getName target) (getCommand target) b
                                 \<in> set (emitted st (snd (executeTarget cfg col target st))))))"
proof (intro conjI impI)
  show "skipped_without_run target (emitted st (snd (executeTarget cfg col target st))) \<longleftrightarrow> up_to_date target st"
    if "\<not> cancelled (env st)" using that by (rule executeTarget_skip_iff)
  show "skipped_without_run target (emitted st (snd (singleBody cfg col dag name current st)))
         \<longleftrightarrow> up_to_date target (notify col name current (totalTargets (stats st)) ''BUILDING'' st)"
    if "getTarget dag name = Some target" using that by (rule singleBody_skip_iff)
  show "skipped_without_run target (emitted (shared s) (shared (workerStep cfg col dag order i s)))
         \<longleftrightarrow> up_to_date target (shared s)"
    if "i < length (workers s) \<and> workers s ! i = Checking name \<and> getTarget dag name = Some target"
    using that checking_step[of i s name dag target cfg col order]
    by (simp add: setWorker_def emitted_def skipped_without_run_def)
  show "workers (workerStep cfg col dag order i s) ! i = Counting name Skipped \<longleftrightarrow> up_to_date target (shared s)"
    if "i < length (workers s) \<and> workers s ! i = Checking name \<and> getTarget dag name = Some target"
    using that checking_step[of i s name dag target cfg col order] by (simp add: setWorker_def)
  show "workers (workerStep cfg col dag order i s) ! i = Running name \<longleftrightarrow> \<not> up_to_date target (shared s)"
    if "i < length (workers s) \<and> workers s ! i = Checking name \<and> getTarget dag name = Some target"
    using that checking_step[of i s name dag target cfg col order] by (simp add: setWorker_def)
  show "\<not> up_to_date target st"
    if "path \<in> set (getOutputs target) \<and> contents (files (env st)) path = None"
    using that by (auto simp: up_to_date_def)
next
  assume a: "\<not> cancelled (env st) \<and> path \<in> set (getOutputs target) \<and> contents (files (env st)) path = None"
  then have m: "Status ''BUILD'' (getName target) \<in> set (emitted st (snd (executeTarget cfg col target st))) \<and>
      Status ''UP-TO-DATE'' (getName target) \<notin> set (emitted st (snd (executeTarget cfg col target st))) \<and>
      (\<not> dryRun cfg \<longrightarrow> (\<exists>b. Ran (getName target) (getCommand target) b
                                 \<in> set (emitted st (snd (executeTarget cfg col target st)))))"
    using executeTarget_missing_output[of st path target cfg col] by blast
  from m show "Status ''BUILD'' (getName target) \<in> set (emitted st (snd (executeTarget cfg col target st)))" by blast
  from m show "Status ''UP-TO-DATE'' (getName target) \<notin> set (emitted st (snd (executeTarget cfg col target st)))" by blast
  from m show "\<exists>b. Ran (getName target) (getCommand target) b
                                 \<in> set (emitted st (snd (executeTarget cfg col target st)))"
    if "\<not> dryRun cfg" using that by blast
qed

theorem skip_iff_outputs_and_signature_witness:
  "up_to_date ((tgt ''a'' [])\<lparr>getOutputs := [''a.out'']\<rparr>)
     (cachedState (noFiles\<lparr>contents := [''a.out'' \<mapsto> ''x'']\<rparr>) (tgt ''a'' [])) \<and>
   skipped_without_run ((tgt ''a'' [])\<lparr>getOutputs := [''a.out'']\<rparr>)
     (emitted (cachedState (noFiles\<lparr>contents := [''a.out'' \<mapsto> ''x'']\<rparr>) (tgt ''a'' []))
        (snd (executeTarget ExecutorConfig_ctor (quietRunner True) ((tgt ''a'' [])\<lparr>getOutputs := [''a.out'']\<rparr>)
                (cachedState (noFiles\<lparr>contents := [''a.out'' \<mapsto> ''x'']\<rparr>) (tgt ''a'' []))))) \<and>
   \<not> needsRebuild (cacheOf (cachedState noFiles (tgt ''a'' []))) ''a'' (computeTargetSignature noFiles [] []) \<and>
   \<not> up_to_date ((tgt ''a'' [])\<lparr>getOutputs := [''a.out'']\<rparr>) (cachedState noFiles (tgt ''a'' [])) \<and>
   Status ''BUILD'' ''a'' \<in> set
     (emitted (cachedState noFiles (tgt ''a'' []))
        (snd (executeTarget ExecutorConfig_ctor (quietRunner True) ((tgt ''a'' [])\<lparr>getOutputs := [''a.out'']\<rparr>)
                (cachedState noFiles (tgt ''a'' []))))) \<and>
   workers (workerStep ExecutorConfig_ctor (quietRunner True) [(''a'', (tgt ''a'' [])\<lparr>getOutputs := [''a.out'']\<rparr>)] [''a''] 0
              ((mtInit ExecutorConfig_ctor [''a''] (cachedState noFiles (tgt ''a'' [])))\<lparr>workers := [Checking ''a'']\<rparr>)) ! 0
     = Running ''a''"
proof -
  let ?T = "(tgt ''a'' [])\<lparr>getOutputs := [''a.out'']\<rparr>"
  let ?S1 = "cachedState (noFiles\<lparr>contents := [''a.out'' \<mapsto> ''x'']\<rparr>) (tgt ''a'' [])"
  let ?S0 = "cachedState noFiles (tgt ''a'' [])"
  let ?M0 = "(mtInit ExecutorConfig_ctor [''a''] ?S0)\<lparr>workers := [Checking ''a'']\<rparr>"
  note up = skip_iff_outputs_and_signature[where st = ?S1 and target = ?T and cfg = ExecutorConfig_ctor
      and col = "quietRunner True" and dag = "[(''a'', ?T)]" and name = "''a''" and current = 1
      and i = 0 and s = ?M0 and order = "[''a'']" and path = "''a.out''"]
  note miss = skip_iff_outputs_and_signature[where st = ?S0 and target = ?T and cfg = ExecutorConfig_ctor
      and col = "quietRunner True" and dag = "[(''a'', ?T)]" and name = "''a''" and current = 1
      and i = 0 and s = ?M0 and order = "[''a'']" and path = "''a.out''"]
  have u: "up_to_date ?T ?S1"
    by (simp add: up_to_date_def cachedState_def freshState_def needsRebuild_def setSignature_def
          noFiles_def tgt_def)
  have c1: "\<not> cancelled (env ?S1)" and c0: "\<not> cancelled (env ?S0)"
    by (simp_all add: cachedState_def freshState_def)
  have o: "''a.out'' \<in> set (getOutputs ?T)" "contents (files (env ?S0)) ''a.out'' = None"
    by (simp_all add: cachedState_def freshState_def noFiles_def)
  have w: "0 < length (workers ?M0)" "workers ?M0 ! 0 = Checking ''a''"
    "getTarget [(''a'', ?T)] ''a'' = Some ?T" "up_to_date ?T (shared ?M0) = up_to_date ?T ?S0"
    by (simp_all add: getTarget_def mtInit_def up_to_date_def cachedState_def freshState_def)
  have n: "getName ?T = ''a''" by (simp add: tgt_def)
  have k: "\<not> needsRebuild (cacheOf ?S0) ''a'' (computeTargetSignature noFiles [] [])"
    by (simp add: cachedState_def freshState_def needsRebuild_def setSignature_def tgt_sel)
  from up u c1 have 1: "skipped_without_run ?T (emitted ?S1 (snd (executeTarget ExecutorConfig_ctor (quietRunner True) ?T ?S1)))"
    by blast
  from miss o have 2: "\<not> up_to_date ?T ?S0" by blast
  from miss o c0 n have 3: "Status ''BUILD'' ''a'' \<in> set
     (emitted ?S0 (snd (executeTarget ExecutorConfig_ctor (quietRunner True) ?T ?S0)))" by simp
  from miss w 2 have 4: "workers (workerStep ExecutorConfig_ctor (quietRunner True) [(''a'', ?T)] [''a''] 0 ?M0) ! 0
     = Running ''a''" by simp
  from u 1 k 2 3 4 show ?thesis by blast
qed

lemma building_ok_exec:
  assumes "trace st = []" and "distinct (map fst dag)" and "\<forall>(n, t) \<in> set dag. getName t = n"
    and "distinct ord" and "set ord = fst ` set dag"
  shows "building_ok dag (trace (snd (executeWithStats cfg col ord dag schedule st)))"
proof (cases "numThreads cfg \<le> 1")
  case True
  obtain ok st' where e: "executeSingleThreaded cfg col ord dag st = (ok, st')"
    by (cases "executeSingleThreaded cfg col ord dag st")
  then show ?thesis using True building_ok_single[OF assms, of cfg col]
    by (simp add: executeWithStats_def)
next
  case False
  then show ?thesis using building_ok_multi[OF assms(1,3), of cfg col ord schedule]
    by (simp add: executeWithStats_def)
qed

lemma ordered_by_nth:
  assumes "ordered_by sts dag tr" and "i < length tr" and "tr ! i = Progress t c n ''BUILDING''"
    and "d \<in> set (dependenciesOf dag t)"
  shows "finished_by sts d (take i tr)"
  using assms unfolding ordered_by_def by blast

text \<open>
  Claim C6, as amended. For a graph whose targets are registered under their names, in
  every execution that starts with nothing emitted, under either strategy, every worker
  count and every schedule of the workers: whenever the callback is called with BUILDING
  for a target, each of its declared dependencies has finished before, that is, the line
  UP-TO-DATE, SUCCESS or FAILED has been printed for it.
\<close>

theorem dependencies_finish_before_building:
  assumes "trace st = []" and "distinct (map fst dag)" and "\<forall>(n, t) \<in> set dag. getName t = n"
    and "distinct ord" and "set ord = fst ` set dag"
  shows "ordered_by [''UP-TO-DATE'', ''SUCCESS'', ''FAILED''] dag
           (trace (snd (executeWithStats cfg col ord dag schedule st)))"
  using building_ok_exec[OF assms] by (simp add: building_ok_def)

theorem dependencies_finish_before_building_witness:
  "trace (snd (executeWithStats ExecutorConfig_ctor (watchedRunner True) [''d'', ''t'']
                 [(''d'', tgt ''d'' []), (''t'', tgt ''t'' [''d''])] []
                 (freshState noFiles False (Cache_ctor ''.mimir''))))
     = [Progress ''d'' 1 2 ''BUILDING'', Status ''BUILD'' ''d'', Ran ''d'' [] True,
        CacheSet ''d'' (computeTargetSignature noFiles [] []), Status ''SUCCESS'' ''d'',
        Progress ''d'' 1 2 ''SUCCESS'',
        Progress ''t'' 2 2 ''BUILDING'', Status ''BUILD'' ''t'', Ran ''t'' [] True,
        CacheSet ''t'' (computeTargetSignature noFiles [] []), Status ''SUCCESS'' ''t'',
        Progress ''t'' 2 2 ''SUCCESS''] \<and>
   ordered_by [''UP-TO-DATE'', ''SUCCESS'', ''FAILED''] [(''d'', tgt ''d'' []), (''t'', tgt ''t'' [''d''])]
     (trace (snd (executeWithStats ExecutorConfig_ctor (watchedRunner True) [''d'', ''t'']
                 [(''d'', tgt ''d'' []), (''t'', tgt ''t'' [''d''])] []
                 (freshState noFiles False (Cache_ctor ''.mimir'')))))"
proof -
  let ?dag = "[(''d'', tgt ''d'' []), (''t'', tgt ''t'' [''d''])]"
  let ?st = "freshState noFiles False (Cache_ctor ''.mimir'')"
  have h: "trace ?st = []" by (simp add: freshState_def)
  have 1: "distinct (map fst ?dag)" by simp
  have 2: "\<forall>(n, t) \<in> set ?dag. getName t = n" by (simp add: tgt_sel)
  have 3: "distinct [''d'', ''t'']" by simp
  have 4: "set [''d'', ''t''] = fst ` set ?dag" by simp
  have e: "trace (snd (executeWithStats ExecutorConfig_ctor (watchedRunner True) [''d'', ''t''] ?dag [] ?st))
     = [Progress ''d'' 1 2 ''BUILDING'', Status ''BUILD'' ''d'', Ran ''d'' [] True,
        CacheSet ''d'' (computeTargetSignature noFiles [] []), Status ''SUCCESS'' ''d'',
        Progress ''d'' 1 2 ''SUCCESS'',
        Progress ''t'' 2 2 ''BUILDING'', Status ''BUILD'' ''t'', Ran ''t'' [] True,
        CacheSet ''t'' (computeTargetSignature noFiles [] []), Status ''SUCCESS'' ''t'',
        Progress ''t'' 2 2 ''SUCCESS'']"
    by (simp add: executeWithStats_def ExecutorConfig_ctor_def executeSingleThreaded_def
          topologicalSort_pair singleBody_def getTarget_def notify_def watchedRunner_def
          runCommand_def printStatus_def storeSignature_def isOutOfDate_def needsRebuild_def
          setSignature_def Cache_ctor_def freshState_def noFiles_def BuildStats_ctor_def tgt_sel Let_def)
  from dependencies_finish_before_building[OF h 1 2 3 4, of ExecutorConfig_ctor "watchedRunner True" "[]"] e
  show ?thesis by blast
qed

text \<open>
  Claim C6 as stated fails when a dependency is up to date: it is skipped with the line
  UP-TO-DATE, and neither SUCCESS nor FAILED is ever emitted for it before its dependent
  begins.
\<close>

theorem skipped_dependency_counterexample:
  "trace (snd (executeWithStats ExecutorConfig_ctor (watchedRunner True) [''d'', ''t'']
                 [(''d'', tgt ''d'' []), (''t'', tgt ''t'' [''d''])] []
                 (cachedState noFiles (tgt ''d'' []))))
     = [Progress ''d'' 1 2 ''BUILDING'', Status ''UP-TO-DATE'' ''d'', Progress ''d'' 1 2 ''UP-TO-DATE'',
        Progress ''t'' 2 2 ''BUILDING'', Status ''BUILD'' ''t'', Ran ''t'' [] True,
        CacheSet ''t'' (computeTargetSignature noFiles [] []), Status ''SUCCESS'' ''t'',
        Progress ''t'' 2 2 ''SUCCESS''] \<and>
   ''d'' \<in> set (dependenciesOf [(''d'', tgt ''d'' []), (''t'', tgt ''t'' [''d''])] ''t'') \<and>
   \<not> ordered_by [''SUCCESS'', ''FAILED''] [(''d'', tgt ''d'' []), (''t'', tgt ''t'' [''d''])]
       (trace (snd (executeWithStats ExecutorConfig_ctor (watchedRunner True) [''d'', ''t'']
                 [(''d'', tgt ''d'' []), (''t'', tgt ''t'' [''d''])] []
                 (cachedState noFiles (tgt ''d'' [])))))"
proof -
  let ?dag = "[(''d'', tgt ''d'' []), (''t'', tgt ''t'' [''d''])]"
  let ?tr = "[Progress ''d'' 1 2 ''BUILDING'', Status ''UP-TO-DATE'' ''d'', Progress ''d'' 1 2 ''UP-TO-DATE'',
        Progress ''t'' 2 2 ''BUILDING'', Status ''BUILD'' ''t'', Ran ''t'' [] True,
        CacheSet ''t'' (computeTargetSignature noFiles [] []), Status ''SUCCESS'' ''t'',
        Progress ''t'' 2 2 ''SUCCESS'']"
  have e: "trace (snd (executeWithStats ExecutorConfig_ctor (watchedRunner True) [''d'', ''t''] ?dag []
                 (cachedState noFiles (tgt ''d'' [])))) = ?tr"
    by (simp add: executeWithStats_def ExecutorConfig_ctor_def executeSingleThreaded_def
          topologicalSort_pair singleBody_def getTarget_def notify_def watchedRunner_def
          runCommand_def printStatus_def storeSignature_def isOutOfDate_def needsRebuild_def
          setSignature_def Cache_ctor_def cachedState_def freshState_def BuildStats_ctor_def tgt_sel Let_def)
  have d: "''d'' \<in> set (dependenciesOf ?dag ''t'')" by (simp add: dependenciesOf_def tgt_sel)
  have "\<not> ordered_by [''SUCCESS'', ''FAILED''] ?dag ?tr"
  proof
    assume "ordered_by [''SUCCESS'', ''FAILED''] ?dag ?tr"
    from ordered_by_nth[OF this, of 3 "''t''" 2 2 "''d''"] d
    show False by (simp add: finished_by_def numeral_3_eq_3)
  qed
  then have n: "\<not> ordered_by [''SUCCESS'', ''FAILED''] ?dag
       (trace (snd (executeWithStats ExecutorConfig_ctor (watchedRunner True) [''d'', ''t''] ?dag []
                 (cachedState noFiles (tgt ''d'' [])))))" unfolding e .
  from e d n show ?thesis by blast
qed


end
